theory Spec2Isabelle
  imports Main "HOL-Library.Multiset" "HOL-Library.FSet" "HOL-Library.Char_ord"
    "HOL-Library.List_Lexorder"
begin

section \<open>Python primitives used by \<^verbatim>\<open>releng/devkit.py\<close>\<close>

text \<open>
  Every exception the script can raise is a value of \<open>error\<close>; a function that can
  raise returns \<open>error + 'a\<close> with \<open>Inl\<close> for the exception.
\<close>

datatype error =
    IndexError                 \<comment> \<open>\<^verbatim>\<open>list.pop(0)\<close> on an empty list, \<^verbatim>\<open>xs[0]\<close> on an empty list\<close>
  | KeyError string            \<comment> \<open>\<^verbatim>\<open>DEVKITS[kit]\<close> for an unknown kit\<close>
  | IOError string             \<comment> \<open>\<^verbatim>\<open>open(path)\<close> on a missing file\<close>
  | HeaderNotFound string      \<comment> \<open>\<^verbatim>\<open>raise Exception("Header not found: ...")\<close>\<close>
  | CalledProcessError string  \<comment> \<open>\<^verbatim>\<open>subprocess.check_output\<close> of a failing tool\<close>

text \<open>\<^verbatim>\<open>s.startswith(p)\<close> and \<^verbatim>\<open>s.endswith(p)\<close>.\<close>

definition startswith :: "string \<Rightarrow> string \<Rightarrow> bool" where
  "startswith s p = (take (length p) s = p)"

definition endswith :: "string \<Rightarrow> string \<Rightarrow> bool" where
  "endswith s p = (length p \<le> length s \<and> drop (length s - length p) s = p)"

text \<open>
  \<^verbatim>\<open>s.split(" ")\<close>: split at every single space; the result is never empty, and two
  adjacent spaces give an empty token.
\<close>

fun split_sp :: "string \<Rightarrow> string list" where
  "split_sp [] = [[]]"
| "split_sp (c # cs) =
     (if c = CHR '' '' then [] # split_sp cs
      else (case split_sp cs of [] \<Rightarrow> [[c]] | w # ws \<Rightarrow> (c # w) # ws))"

text \<open>\<^verbatim>\<open>sep.join(xs)\<close>.\<close>

fun join :: "string \<Rightarrow> string list \<Rightarrow> string" where
  "join sep [] = []"
| "join sep [x] = x"
| "join sep (x # y # ys) = x @ sep @ join sep (y # ys)"

text \<open>
  \<^verbatim>\<open>deduplicate(items) = list(OrderedDict.fromkeys(items))\<close>: the keys are inserted from
  left to right; a key that is already present keeps its position.
\<close>

definition fromkeys :: "'a list \<Rightarrow> 'a list" where
  "fromkeys items = foldl (\<lambda>d k. if k \<in> set d then d else d @ [k]) [] items"

definition deduplicate :: "'a list \<Rightarrow> 'a list" where
  "deduplicate items = fromkeys items"

text \<open>
  The wording of the specification, ``first occurrence wins, order preserved'', as a
  function of its own: keep the head, delete its later occurrences, go on.
\<close>

fun first_occurrences :: "'a list \<Rightarrow> 'a list" where
  "first_occurrences [] = []"
| "first_occurrences (x # xs) = x # first_occurrences (removeAll x xs)"

section \<open>The kit catalog and the configuration prefix\<close>

text \<open>
  \<^verbatim>\<open>DEVKITS\<close>: kit name to (package, path components of the umbrella header).
\<close>

definition DEVKITS :: "string \<rightharpoonup> string \<times> string list" where
  "DEVKITS =
     [''frida-gum'' \<mapsto> (''frida-gum-1.0'', [''frida-1.0'', ''gum'', ''gum.h'']),
      ''frida-gumjs'' \<mapsto> (''frida-gumjs-1.0'', [''frida-1.0'', ''gumjs'', ''gumscriptbackend.h'']),
      ''frida-core'' \<mapsto> (''frida-core-1.0'', [''frida-1.0'', ''frida-core.h''])]"

text \<open>
  The end of \<^verbatim>\<open>generate_header\<close>: the configuration line that is put in front of the
  amalgamated header.
\<close>

definition config :: "string \<Rightarrow> string" where
  "config package =
     (if startswith package ''gum'' then ''#define GUM_STATIC'' @ [CHR 0x0A, CHR 0x0A] else [])"

section \<open>Flag trimming\<close>

text \<open>
  The first loop of \<^verbatim>\<open>trim_flags\<close>: \<^verbatim>\<open>-include\<close> is dropped together with the token
  after it; \<^verbatim>\<open>pending_cflags.pop(0)\<close> raises when \<^verbatim>\<open>-include\<close> is the last token.
\<close>

fun drop_include :: "string list \<Rightarrow> error + string list" where
  "drop_include [] = Inr []"
| "drop_include (flag # pending) =
     (if flag = ''-include'' then
        (case pending of [] \<Rightarrow> Inl IndexError | _ # rest \<Rightarrow> drop_include rest)
      else map_sum id ((#) flag) (drop_include pending))"

text \<open>
  The second loop: a link token \<^verbatim>\<open>-arch\<close> or \<^verbatim>\<open>-isysroot\<close> that is itself among the
  compile tokens is dropped together with the token after it.
\<close>

fun drop_arch :: "string set \<Rightarrow> string list \<Rightarrow> error + string list" where
  "drop_arch existing_cflags [] = Inr []"
| "drop_arch existing_cflags (flag # pending) =
     (if flag \<in> {''-arch'', ''-isysroot''} \<and> flag \<in> existing_cflags then
        (case pending of [] \<Rightarrow> Inl IndexError | _ # rest \<Rightarrow> drop_arch existing_cflags rest)
      else map_sum id ((#) flag) (drop_arch existing_cflags pending))"

text \<open>
  The inner loop of the third pass: while the current flag starts with \<^verbatim>\<open>-Wl,\<close> its
  tail is collected and the next token is popped; the flag is \<open>None\<close> when the list ran
  out. The result is (\<^verbatim>\<open>raw_flags\<close>, \<^verbatim>\<open>flag\<close>, \<^verbatim>\<open>pending_ldflags\<close>).
\<close>

fun collect_wl :: "string list \<Rightarrow> string \<Rightarrow> string list \<Rightarrow> string list \<times> string option \<times> string list" where
  "collect_wl raw_flags flag [] =
     (if startswith flag ''-Wl,'' then (raw_flags @ [drop 4 flag], None, [])
      else (raw_flags, Some flag, []))"
| "collect_wl raw_flags flag (next_flag # pending) =
     (if startswith flag ''-Wl,'' then collect_wl (raw_flags @ [drop 4 flag]) next_flag pending
      else (raw_flags, Some flag, next_flag # pending))"

lemma collect_wl_length:
  "collect_wl raw flag pending = (raw', flag', pending') \<Longrightarrow> length pending' \<le> length pending"
  by (induction raw flag pending rule: collect_wl.induct) (auto split: if_splits)

text \<open>The third pass: the outer loop.\<close>

function merge_wl :: "string set \<Rightarrow> string list \<Rightarrow> string list" where
  "merge_wl existing_cflags [] = []"
| "merge_wl existing_cflags (flag # pending) =
     (case collect_wl [] flag pending of
        (raw_flags, flag', pending') \<Rightarrow>
          (if raw_flags \<noteq> [] then [''-Wl,'' @ join '','' raw_flags] else [])
          @ (case flag' of
               None \<Rightarrow> []
             | Some f \<Rightarrow> if f \<notin> existing_cflags then [f] else [])
          @ merge_wl existing_cflags pending')"
  by pat_completeness auto
termination
  by (relation "measure (\<lambda>(e, pending). length pending)")
     (auto dest: collect_wl_length [OF sym])

text \<open>\<^verbatim>\<open>trim_flags(cflags, ldflags)\<close>.\<close>

definition trim_flags :: "string \<Rightarrow> string \<Rightarrow> error + (string \<times> string)" where
  "trim_flags cflags ldflags =
     (case drop_include (split_sp cflags) of
        Inl e \<Rightarrow> Inl e
      | Inr kept \<Rightarrow>
          (let trimmed_cflags = deduplicate kept;
               existing_cflags = set trimmed_cflags
           in case drop_arch existing_cflags (split_sp ldflags) of
                Inl e \<Rightarrow> Inl e
              | Inr pending_ldflags \<Rightarrow>
                  Inr (join '' '' trimmed_cflags,
                       join '' '' (merge_wl existing_cflags pending_ldflags))))"

text \<open>The link token \<^verbatim>\<open>-Wl,x\<close>, for stating properties of the third pass.\<close>

definition wl :: "string \<Rightarrow> string" where
  "wl x = ''-Wl,'' @ x"

section \<open>Header amalgamation\<close>

text \<open>
  White space as \<^verbatim>\<open>str.strip()\<close> and the pattern's \<^verbatim>\<open>\s\<close> take it on ASCII text: space,
  tab, line feed, vertical tab, form feed, carriage return.
\<close>

definition is_space :: "char \<Rightarrow> bool" where
  "is_space c = (c \<in> {CHR '' '', CHR 0x09, CHR 0x0A, CHR 0x0B, CHR 0x0C, CHR 0x0D})"

text \<open>\<^verbatim>\<open>line.strip()\<close>.\<close>

definition strip :: "string \<Rightarrow> string" where
  "strip s = rev (dropWhile is_space (rev (dropWhile is_space s)))"

text \<open>
  \<^verbatim>\<open>INCLUDE_PATTERN.match(s)\<close> for the pattern \<^verbatim>\<open>#include\s+[<"](.*?)[>"]\<close>, returning
  \<^verbatim>\<open>match.group(1)\<close>: the text starts with \<^verbatim>\<open>#include\<close>, then one or more white-space
  characters, then \<^verbatim>\<open><\<close> or a double quote; the name is the shortest text up to the next
  \<^verbatim>\<open>>\<close> or double quote, which must exist; the dot does not match a line feed.
\<close>

definition include_match :: "string \<Rightarrow> string option" where
  "include_match s =
     (if startswith s ''#include'' then
        (let r = drop 8 s in
         if takeWhile is_space r = [] then None
         else
           (case dropWhile is_space r of
              [] \<Rightarrow> None
            | q # body \<Rightarrow>
                if q = CHR ''<'' \<or> q = CHR 0x22 then
                  (let name = takeWhile (\<lambda>c. c \<noteq> CHR ''>'' \<and> c \<noteq> CHR 0x22) body in
                   if dropWhile (\<lambda>c. c \<noteq> CHR ''>'' \<and> c \<noteq> CHR 0x22) body = []
                      \<or> CHR 0x0A \<in> set name
                   then None else Some name)
                else None))
      else None)"

text \<open>
  \<^verbatim>\<open>for line in f\<close>: the lines of a text, each with its line feed (the last line may have
  none).
\<close>

fun file_lines :: "string \<Rightarrow> string list" where
  "file_lines [] = []"
| "file_lines (c # cs) =
     (if c = CHR 0x0A then [c] # file_lines cs
      else (case file_lines cs of [] \<Rightarrow> [[c]] | l # ls \<Rightarrow> (c # l) # ls))"

text \<open>
  The file system as far as \<^verbatim>\<open>open(header, "r")\<close> sees it: path to text; opening a
  missing file raises. \<open>inline_state\<close> is the pair of \<^verbatim>\<open>processed_header_files\<close> and
  \<^verbatim>\<open>result\<close> that \<^verbatim>\<open>ingest_header\<close> mutates.
\<close>

type_synonym files = "string \<rightharpoonup> string"
type_synonym inline_state = "string set \<times> string list"

text \<open>
  \<^verbatim>\<open>ingest_header\<close>, and its loop over the lines of the header as \<open>ingest_lines\<close>. The
  inner \<^verbatim>\<open>for other_header in all_header_files\<close> stops at the first header that ends with
  \<^verbatim>\<open>"/" + name\<close>: that is \<open>find\<close>.
\<close>

function ingest_header :: "files \<Rightarrow> string list \<Rightarrow> string \<Rightarrow> inline_state \<Rightarrow> error + inline_state"
  and ingest_lines :: "files \<Rightarrow> string list \<Rightarrow> string list \<Rightarrow> inline_state \<Rightarrow> error + inline_state"
where
  "ingest_header fs all_header_files header st =
     (case fs header of
        None \<Rightarrow> Inl (IOError header)
      | Some text \<Rightarrow> ingest_lines fs all_header_files (file_lines text) st)"
| "ingest_lines fs all_header_files [] st = Inr st"
| "ingest_lines fs all_header_files (line # rest) (processed_header_files, result) =
     (case include_match (strip line) of
        None \<Rightarrow> ingest_lines fs all_header_files rest (processed_header_files, result @ [line])
      | Some name \<Rightarrow>
          (case find (\<lambda>other_header. endswith other_header (CHR ''/'' # name)) all_header_files of
             None \<Rightarrow> ingest_lines fs all_header_files rest (processed_header_files, result @ [line])
           | Some other_header \<Rightarrow>
               if other_header \<notin> processed_header_files then
                 (case ingest_header fs all_header_files other_header
                         (insert other_header processed_header_files, result) of
                    Inl e \<Rightarrow> Inl e
                  | Inr st' \<Rightarrow> ingest_lines fs all_header_files rest st')
               else ingest_lines fs all_header_files rest (processed_header_files, result)))"
  by pat_completeness auto

text \<open>
  Termination: the recursion is nested (the lines after an inlined header go on from the
  state that the inner call returns), so the proof needs that a call only adds to the
  processed set. Then either the number of headers of the closure not yet processed goes
  down, or it stays and the lines left get fewer.
\<close>

lemma ingest_dom_mono:
  "ingest_header_ingest_lines_dom (Inl (fs, hs, h, st)) \<Longrightarrow>
     ingest_header fs hs h st = Inr st' \<Longrightarrow> fst st \<subseteq> fst st'"
  "ingest_header_ingest_lines_dom (Inr (fs, hs, ls, st)) \<Longrightarrow>
     ingest_lines fs hs ls st = Inr st' \<Longrightarrow> fst st \<subseteq> fst st'"
proof (induct fs hs h st and fs hs ls st arbitrary: st' and st' rule: ingest_header_ingest_lines.pinduct)
  case (1 fs hs h st)
  then show ?case by (auto simp: ingest_header.psimps split: option.splits)
next
  case (2 fs hs st)
  then show ?case by (auto simp: ingest_lines.psimps)
next
  case (3 fs hs line rest P R)
  show ?case
  proof (cases "include_match (strip line)")
    case None
    with "3.prems" "3.hyps"(1) "3.hyps"(2) [OF None, of st'] show ?thesis
      by (simp add: ingest_lines.psimps)
  next
    case (Some name)
    show ?thesis
    proof (cases "find (\<lambda>other_header. endswith other_header (CHR ''/'' # name)) hs")
      case None
      with Some "3.prems" "3.hyps"(1) "3.hyps"(3) [OF Some None, of st'] show ?thesis
        by (simp add: ingest_lines.psimps)
    next
      case f: (Some other)
      show ?thesis
      proof (cases "other \<in> P")
        case True
        with Some f "3.prems" "3.hyps"(1) "3.hyps"(6) [OF Some f, of st'] show ?thesis
          by (simp add: ingest_lines.psimps)
      next
        case False
        with Some f "3.prems" "3.hyps"(1)
        obtain st1 where a: "ingest_header fs hs other (insert other P, R) = Inr st1"
          and b: "ingest_lines fs hs rest st1 = Inr st'"
          by (auto simp: ingest_lines.psimps split: sum.splits)
        from "3.hyps"(4) [OF Some f False a] have "insert other P \<subseteq> fst st1" by simp
        moreover from "3.hyps"(5) [OF Some f False a b] have "fst st1 \<subseteq> fst st'" .
        ultimately show ?thesis by auto
      qed
    qed
  qed
qed

termination ingest_header
proof ((relation "inv_image (less_than <*lex*> less_than)
    (\<lambda>x. case x of
       Inl (fs, hs, h, st) \<Rightarrow> (card (set hs - fst st), case fs h of None \<Rightarrow> 0 | Some t \<Rightarrow> Suc (length (file_lines t)))
     | Inr (fs, hs, ls, st) \<Rightarrow> (card (set hs - fst st), length ls))"), goal_cases)
  case 1
  show ?case by (intro wf_inv_image wf_lex_prod wf_less_than)
next
  case (2 fs hs h st content)
  then show ?case by simp
next
  case (3 fs hs line rest P R)
  then show ?case by simp
next
  case (4 fs hs line rest P R name)
  then show ?case by simp
next
  case (5 fs hs line rest P R name other)
  then have "other \<in> set hs" by (auto simp: find_Some_iff)
  with 5 have "set hs - insert other P \<subset> set hs - P" by auto
  then have "card (set hs - insert other P) < card (set hs - P)"
    by (intro psubset_card_mono) auto
  then show ?case by simp
next
  case (6 fs hs line rest P R name other st')
  from ingest_dom_mono(1) [OF 6(5) 6(4)]
  have "insert other P \<subseteq> fst st'" by simp
  then have "card (set hs - fst st') \<le> card (set hs - P)"
    by (intro card_mono) auto
  then show ?case by auto
next
  case (7 fs hs line rest P R name other)
  then show ?case by simp
qed

text \<open>
  Lines 99 to 103 of \<^verbatim>\<open>generate_header\<close>: the umbrella header is \<^verbatim>\<open>header_files[0]\<close>, it
  is marked as processed, ingested, and the lines are joined. \<open>header_files\<close> is what the
  preprocessor reported, filtered to the paths under the project root.
\<close>

definition devkit_header :: "files \<Rightarrow> string list \<Rightarrow> error + string" where
  "devkit_header fs header_files =
     (case header_files of
        [] \<Rightarrow> Inl IndexError
      | umbrella_header # _ \<Rightarrow>
          (case ingest_header fs header_files umbrella_header ({umbrella_header}, []) of
             Inl e \<Rightarrow> Inl e
           | Inr (processed_header_files, devkit_header_lines) \<Rightarrow>
               Inr (concat devkit_header_lines)))"

text \<open>Lines 105 to 110: the configuration prefix.\<close>

definition generate_header :: "string \<Rightarrow> files \<Rightarrow> string list \<Rightarrow> error + string" where
  "generate_header package fs header_files =
     (case devkit_header fs header_files of
        Inl e \<Rightarrow> Inl e
      | Inr devkit_header_text \<Rightarrow> Inr (config package @ devkit_header_text))"

text \<open>
  For stating what the amalgamation does: the header of the closure that an include line
  resolves to (the test of \<open>ingest_lines\<close>), the lines of a header that are not such
  includes, and the headers reachable from the umbrella header through such includes.
\<close>

definition local_target :: "string list \<Rightarrow> string \<Rightarrow> string option" where
  "local_target all_header_files line =
     (case include_match (strip line) of
        None \<Rightarrow> None
      | Some name \<Rightarrow> find (\<lambda>other_header. endswith other_header (CHR ''/'' # name)) all_header_files)"

definition own_lines :: "files \<Rightarrow> string list \<Rightarrow> string \<Rightarrow> string list" where
  "own_lines fs all_header_files header =
     (case fs header of
        None \<Rightarrow> []
      | Some content \<Rightarrow> filter (\<lambda>line. local_target all_header_files line = None) (file_lines content))"

inductive_set reachable :: "files \<Rightarrow> string list \<Rightarrow> string \<Rightarrow> string set"
  for fs :: files and all_header_files :: "string list" and umbrella :: string
where
  root: "umbrella \<in> reachable fs all_header_files umbrella"
| step: "header \<in> reachable fs all_header_files umbrella \<Longrightarrow>
         fs header = Some content \<Longrightarrow>
         line \<in> set (file_lines content) \<Longrightarrow>
         local_target all_header_files line = Some other_header \<Longrightarrow>
         other_header \<in> reachable fs all_header_files umbrella"

text \<open>
  For the invariant of the descent: the local includes of a header and of a list of
  lines, the plain lines of a set of headers as a multiset, and the relation between the
  state before a list of lines is ingested and the state after.
\<close>

definition succs :: "files \<Rightarrow> string list \<Rightarrow> string \<Rightarrow> string set" where
  "succs fs hs x =
     {t. \<exists>content line. fs x = Some content \<and> line \<in> set (file_lines content)
          \<and> local_target hs line = Some t}"

definition targets :: "string list \<Rightarrow> string list \<Rightarrow> string set" where
  "targets hs ls = {t. \<exists>l \<in> set ls. local_target hs l = Some t}"

definition bodies :: "files \<Rightarrow> string list \<Rightarrow> string set \<Rightarrow> string multiset" where
  "bodies fs hs S = (\<Sum>x\<in>S. mset (own_lines fs hs x))"

definition ingest_post :: "files \<Rightarrow> string list \<Rightarrow> string list \<Rightarrow> inline_state \<Rightarrow> inline_state \<Rightarrow> bool" where
  "ingest_post fs hs ls st st' =
     (fst st \<subseteq> fst st' \<and> fst st' \<subseteq> fst st \<union> set hs
      \<and> mset (snd st') = mset (snd st) + mset (filter (\<lambda>l. local_target hs l = None) ls)
            + bodies fs hs (fst st' - fst st)
      \<and> (\<forall>x \<in> fst st' - fst st. succs fs hs x \<subseteq> fst st')
      \<and> targets hs ls \<subseteq> fst st')"

text \<open>Two small file trees to run the amalgamation on.\<close>

definition demo_plain :: files where
  "demo_plain = [''/root/h.h'' \<mapsto> ''#include <stdio.h>'' @ [CHR 0x0A] @ ''int f (void);'' @ [CHR 0x0A]]"

definition demo_cycle :: files where
  \<open>demo_cycle =
     [''/r/a.h'' \<mapsto> ''#include "b.h"\<newline>int a;\<newline>'',
      ''/r/b.h'' \<mapsto> ''#include "a.h"\<newline>#include "c.h"\<newline>#include <stdio.h>\<newline>int b;\<newline>'',
      ''/r/c.h'' \<mapsto> ''  #include   "b.h"\<newline>int c;\<newline>'']\<close>

section \<open>Mapping link flags to archives\<close>

text \<open>\<^verbatim>\<open>os.path.join(a, b)\<close> on a POSIX system, for two components.\<close>

definition path_join :: "string \<Rightarrow> string \<Rightarrow> string" where
  "path_join a b =
     (if startswith b ''/'' then b
      else if a = [] \<or> endswith a ''/'' then a @ b
      else a @ ''/'' @ b)"

text \<open>The file probed for a library name in a search directory.\<close>

definition candidate :: "string \<Rightarrow> string \<Rightarrow> string" where
  "candidate name d = path_join d (''lib'' @ name @ ''.a'')"

text \<open>
  The inner loop of \<^verbatim>\<open>resolve_library_paths\<close>: the first candidate that exists, in the
  order of the directories. \<open>exists\<close> is \<^verbatim>\<open>os.path.exists\<close>.
\<close>

fun probe :: "(string \<Rightarrow> bool) \<Rightarrow> string \<Rightarrow> string list \<Rightarrow> string option" where
  "probe exists name [] = None"
| "probe exists name (d # dirs) =
     (if exists (candidate name d) then Some (candidate name d) else probe exists name dirs)"

text \<open>The outer loop, with \<^verbatim>\<open>paths\<close> and \<^verbatim>\<open>flags\<close> as the accumulated state.\<close>

fun resolve_loop :: "(string \<Rightarrow> bool) \<Rightarrow> string list \<Rightarrow> string list
    \<Rightarrow> string list \<times> string list \<Rightarrow> string list \<times> string list" where
  "resolve_loop exists dirs [] (paths, flags) = (paths, flags)"
| "resolve_loop exists dirs (name # names) (paths, flags) =
     (case probe exists name dirs of
        Some library_path \<Rightarrow> resolve_loop exists dirs names (paths @ [library_path], flags)
      | None \<Rightarrow> resolve_loop exists dirs names (paths, flags @ [''-l'' @ name]))"

text \<open>
  \<^verbatim>\<open>resolve_library_paths\<close> returns \<^verbatim>\<open>(list(set(paths)), flags)\<close>. The order in which a
  Python set is iterated depends on the hashes of its elements and is not specified by
  the language; \<open>list_of_set\<close> stands for it. All that Python promises of it is that
  the list has the elements of the set, each once.
\<close>

definition resolve_library_paths ::
    "(string set \<Rightarrow> string list) \<Rightarrow> (string \<Rightarrow> bool) \<Rightarrow> string list \<Rightarrow> string list
      \<Rightarrow> string list \<times> string list" where
  "resolve_library_paths list_of_set exists names dirs =
     (case resolve_loop exists dirs names ([], []) of
        (paths, flags) \<Rightarrow> (list_of_set (set paths), flags))"

text \<open>\<^verbatim>\<open>infer_library_dirs\<close>, \<^verbatim>\<open>infer_library_names\<close>, \<^verbatim>\<open>infer_linker_flags\<close>.\<close>

definition infer_library_dirs :: "string list \<Rightarrow> string list" where
  "infer_library_dirs flags = map (drop 2) (filter (\<lambda>flag. startswith flag ''-L'') flags)"

definition infer_library_names :: "string list \<Rightarrow> string list" where
  "infer_library_names flags = map (drop 2) (filter (\<lambda>flag. startswith flag ''-l'') flags)"

definition infer_linker_flags :: "string list \<Rightarrow> string list" where
  "infer_linker_flags flags = filter (\<lambda>flag. startswith flag ''-Wl'') flags"

section \<open>Archive combination\<close>

text \<open>
  The temporary directories that \<^verbatim>\<open>tempfile.mkdtemp\<close> hands out, in the order of their
  creation: each has a name (a number here) and its files, name to content. This is the
  state that \<^verbatim>\<open>generate_library_unix\<close> changes; what is left of it when the function
  returns or raises is what is left on disk.
\<close>

type_synonym directory = "string \<rightharpoonup> string"
type_synonym tmp_area = "(nat \<times> directory) list"

text \<open>\<^verbatim>\<open>tempfile.mkdtemp\<close>: a new, empty directory under a name that is not in use.\<close>

definition mkdtemp :: "tmp_area \<Rightarrow> nat \<times> tmp_area" where
  "mkdtemp w = (let d = Suc (foldr max (map fst w) 0) in (d, w @ [(d, Map.empty)]))"

text \<open>\<^verbatim>\<open>shutil.rmtree\<close>, and writing, deleting and listing files of a directory.\<close>

definition rmtree :: "nat \<Rightarrow> tmp_area \<Rightarrow> tmp_area" where
  "rmtree d w = filter (\<lambda>entry. fst entry \<noteq> d) w"

definition write_file :: "nat \<Rightarrow> string \<Rightarrow> string \<Rightarrow> tmp_area \<Rightarrow> tmp_area" where
  "write_file d name content w =
     map (\<lambda>entry. if fst entry = d then (d, (snd entry)(name \<mapsto> content)) else entry) w"

definition remove_file :: "nat \<Rightarrow> string \<Rightarrow> tmp_area \<Rightarrow> tmp_area" where
  "remove_file d name w =
     map (\<lambda>entry. if fst entry = d then (d, (snd entry)(name := None)) else entry) w"

definition read_dir :: "nat \<Rightarrow> tmp_area \<Rightarrow> directory" where
  "read_dir d w = (case map_of w d of None \<Rightarrow> Map.empty | Some files \<Rightarrow> files)"

text \<open>
  The names that \<^verbatim>\<open>glob("*.o")\<close> selects in a directory: they end with \<^verbatim>\<open>.o\<close> and do not
  start with a dot.
\<close>

definition glob_o :: "string \<Rightarrow> bool" where
  "glob_o name = (endswith name ''.o'' \<and> \<not> startswith name ''.'')"

text \<open>
  \<^verbatim>\<open>while object_name in object_names: object_name = "_" + object_name\<close>. The loop ends
  because the set is finite and the name gets longer; \<^verbatim>\<open>object_names\<close> is a finite set.
\<close>

function unique_name :: "string fset \<Rightarrow> string \<Rightarrow> string" where
  "unique_name object_names object_name =
     (if object_name |\<in>| object_names then unique_name object_names (CHR ''_'' # object_name)
      else object_name)"
  by pat_completeness auto
termination
proof (relation "measure (\<lambda>(object_names, object_name).
          card {n \<in> fset object_names. length object_name \<le> length n})", goal_cases)
  case 1
  show ?case by simp
next
  case (2 object_names object_name)
  let ?longer = "{n \<in> fset object_names. length (CHR ''_'' # object_name) \<le> length n}"
  let ?long = "{n \<in> fset object_names. length object_name \<le> length n}"
  have "?longer \<subseteq> ?long" by auto
  moreover have "object_name \<in> ?long" using 2 by simp
  moreover have "object_name \<notin> ?longer" by simp
  ultimately have "?longer \<subset> ?long" by blast
  moreover have "finite ?long" by simp
  ultimately have "card ?longer < card ?long" by (rule psubset_card_mono [rotated])
  then show ?case by simp
qed

declare unique_name.simps [simp del]

text \<open>
  The build environment of the POSIX path, as far as \<^verbatim>\<open>generate_library_unix\<close> calls it:
  the output of \<^verbatim>\<open>$PKG_CONFIG --static --libs package\<close>, \<^verbatim>\<open>os.path.exists\<close>, the iteration
  order of a set, \<^verbatim>\<open>$AR x\<close> (the files that extracting an archive leaves in the current
  directory, in the order in which \<^verbatim>\<open>glob\<close> lists them) and \<^verbatim>\<open>$AR rcs\<close> on the named files
  of a directory (the bytes of the new archive). Each tool run can fail.
\<close>

record tools =
  pkg_config_libs :: "string \<Rightarrow> error + string"
  path_exists :: "string \<Rightarrow> bool"
  set_iteration :: "string set \<Rightarrow> string list"
  ar_x :: "string \<Rightarrow> error + (string \<times> string) list"
  ar_rcs :: "string fset \<Rightarrow> directory \<Rightarrow> error + string"

text \<open>A successful \<^verbatim>\<open>$AR x\<close> in the scratch directory.\<close>

fun extract_into :: "nat \<Rightarrow> (string \<times> string) list \<Rightarrow> tmp_area \<Rightarrow> tmp_area" where
  "extract_into d [] w = w"
| "extract_into d ((name, content) # files) w = extract_into d files (write_file d name content w)"

text \<open>
  The loop over the object files of one archive: each is moved into the combined
  directory under a name that is not yet claimed.
\<close>

fun move_objects :: "nat \<Rightarrow> nat \<Rightarrow> (string \<times> string) list \<Rightarrow> string fset \<times> tmp_area
    \<Rightarrow> string fset \<times> tmp_area" where
  "move_objects scratch_dir combined_dir [] st = st"
| "move_objects scratch_dir combined_dir ((name, content) # objects) (object_names, w) =
     (let object_name = unique_name object_names name
      in move_objects scratch_dir combined_dir objects
           (finsert object_name object_names,
            write_file combined_dir object_name content (remove_file scratch_dir name w)))"

text \<open>
  The loop over the archives (lines 246 to 260). The second component of the result is
  the state of the temporary directories when the loop ends, or when a tool run raises.
\<close>

fun combine_archives :: "tools \<Rightarrow> nat \<Rightarrow> string list \<Rightarrow> string fset \<times> tmp_area
    \<Rightarrow> (error + string fset) \<times> tmp_area" where
  "combine_archives t combined_dir [] (object_names, w) = (Inr object_names, w)"
| "combine_archives t combined_dir (library_path # library_paths) (object_names, w) =
     (case mkdtemp w of
        (scratch_dir, w1) \<Rightarrow>
          (case ar_x t library_path of
             Inl e \<Rightarrow> (Inl e, w1)
           | Inr files \<Rightarrow>
               (case move_objects scratch_dir combined_dir (filter (\<lambda>f. glob_o (fst f)) files)
                       (object_names, extract_into scratch_dir files w1) of
                  (object_names', w2) \<Rightarrow>
                    combine_archives t combined_dir library_paths
                      (object_names', rmtree scratch_dir w2))))"

text \<open>\<^verbatim>\<open>generate_library_unix\<close>.\<close>

definition generate_library_unix :: "tools \<Rightarrow> string \<Rightarrow> tmp_area
    \<Rightarrow> (error + string \<times> string list) \<times> tmp_area" where
  "generate_library_unix t package w =
     (case pkg_config_libs t package of
        Inl e \<Rightarrow> (Inl e, w)
      | Inr output \<Rightarrow>
          (let library_flags = split_sp (strip output);
               library_dirs = infer_library_dirs library_flags;
               library_names = infer_library_names library_flags
           in case resolve_library_paths (set_iteration t) (path_exists t) library_names library_dirs of
                (library_paths, flags) \<Rightarrow>
                  (let extra_flags = flags @ infer_linker_flags library_flags
                   in case mkdtemp w of
                        (combined_dir, w1) \<Rightarrow>
                          (case combine_archives t combined_dir library_paths ({||}, w1) of
                             (Inl e, w2) \<Rightarrow> (Inl e, w2)
                           | (Inr object_names, w2) \<Rightarrow>
                               (case ar_rcs t object_names (read_dir combined_dir w2) of
                                  Inl e \<Rightarrow> (Inl e, w2)
                                | Inr data \<Rightarrow>
                                    (Inr (data, extra_flags),
                                     rmtree combined_dir
                                       (write_file combined_dir ''library.a'' data w2)))))))"







text \<open>
  What the loop over the object files does to the claimed names and to the files of the
  combined directory, apart from the directories it works in.
\<close>

fun claim_names :: "(string \<times> string) list \<Rightarrow> string fset \<times> directory \<Rightarrow> string fset \<times> directory" where
  "claim_names [] st = st"
| "claim_names ((name, content) # objects) (object_names, files) =
     (let object_name = unique_name object_names name
      in claim_names objects (finsert object_name object_names, files(object_name \<mapsto> content)))"

text \<open>
  A build environment with two archives that both have a member \<^verbatim>\<open>x.o\<close>, and one in
  which extracting the second archive fails.
\<close>

definition demo_ar_x :: "string \<Rightarrow> error + (string \<times> string) list" where
  "demo_ar_x library_path =
     (if library_path = ''/d/libA.a'' then Inr [(''x.o'', ''Ax''), (''y.o'', ''Ay'')]
      else if library_path = ''/d/libB.a'' then Inr [(''x.o'', ''Bx''), (''z.o'', ''Bz'')]
      else Inl (CalledProcessError ''ar x''))"

definition demo_tools :: tools where
  "demo_tools =
     \<lparr>pkg_config_libs = (\<lambda>package. Inr ''-L/d -lA -lB -lm -Wl,--gc-sections\<newline>''),
      path_exists = (\<lambda>p. p = ''/d/libA.a'' \<or> p = ''/d/libB.a''),
      set_iteration = sorted_list_of_set,
      ar_x = demo_ar_x,
      ar_rcs = (\<lambda>object_names files. Inr ''!<arch>'')\<rparr>"

definition demo_tools_broken :: tools where
  "demo_tools_broken =
     demo_tools\<lparr>ar_x := (\<lambda>library_path.
        if library_path = ''/d/libB.a'' then Inl (CalledProcessError ''ar x'')
        else demo_ar_x library_path)\<rparr>"



section \<open>The orchestrator\<close>

text \<open>
  \<^verbatim>\<open>compute_umbrella_header_path\<close> and \<^verbatim>\<open>compute_library_filename\<close> on a system other than
  Windows (\<^verbatim>\<open>platform.system() != 'Windows'\<close>); \<^verbatim>\<open>os.path.join\<close> of several components
  joins them from left to right.
\<close>

definition compute_umbrella_header_path :: "string \<Rightarrow> string \<Rightarrow> string list \<Rightarrow> string" where
  "compute_umbrella_header_path frida_root host umbrella_header =
     foldl path_join frida_root ([''build'', ''frida-'' @ host, ''include''] @ umbrella_header)"

definition compute_library_filename :: "string \<Rightarrow> string" where
  "compute_library_filename kit = ''lib'' @ kit @ ''.a''"

text \<open>
  What \<^verbatim>\<open>generate_devkit\<close> calls: \<^verbatim>\<open>os.path.exists\<close>, the three generation steps
  \<^verbatim>\<open>generate_header\<close>, \<^verbatim>\<open>generate_library\<close> and \<^verbatim>\<open>generate_example\<close> run in the build
  environment (each returns its artifact or raises), and whether a file of the output
  directory can be opened for writing.
\<close>

record steps =
  file_exists :: "string \<Rightarrow> bool"
  header_step :: "string \<Rightarrow> string \<Rightarrow> error + string"
  library_step :: "string \<Rightarrow> error + string \<times> string list"
  example_step :: "string \<Rightarrow> string \<Rightarrow> string \<Rightarrow> string list \<Rightarrow> error + string"
  can_write :: "string \<Rightarrow> bool"

text \<open>\<^verbatim>\<open>with open(os.path.join(output_dir, filename), "w") as f: f.write(content)\<close>.\<close>

definition write_artifact :: "steps \<Rightarrow> string \<Rightarrow> string \<Rightarrow> directory \<Rightarrow> error + directory" where
  "write_artifact s filename content output_dir =
     (if can_write s filename then Inr (output_dir(filename \<mapsto> content))
      else Inl (IOError filename))"

text \<open>
  \<^verbatim>\<open>generate_devkit\<close>. The state is the output directory, file name to content; the second
  component of the result is the output directory when the function returns or raises.
\<close>

definition generate_devkit :: "steps \<Rightarrow> string \<Rightarrow> string \<Rightarrow> string \<Rightarrow> directory
    \<Rightarrow> (error + string list) \<times> directory" where
  "generate_devkit s frida_root kit host output_dir =
     (case DEVKITS kit of
        None \<Rightarrow> (Inl (KeyError kit), output_dir)
      | Some (package, umbrella_header) \<Rightarrow>
          (let umbrella_header_path = compute_umbrella_header_path frida_root host umbrella_header;
               header_filename = kit @ ''.h''
           in if \<not> file_exists s umbrella_header_path
              then (Inl (HeaderNotFound umbrella_header_path), output_dir)
              else
                (case header_step s package umbrella_header_path of
                   Inl e \<Rightarrow> (Inl e, output_dir)
                 | Inr header \<Rightarrow>
                     (case write_artifact s header_filename header output_dir of
                        Inl e \<Rightarrow> (Inl e, output_dir)
                      | Inr out1 \<Rightarrow>
                          (let library_filename = compute_library_filename kit
                           in case library_step s package of
                                Inl e \<Rightarrow> (Inl e, out1)
                              | Inr (library, extra_ldflags) \<Rightarrow>
                                  (case write_artifact s library_filename library out1 of
                                     Inl e \<Rightarrow> (Inl e, out1)
                                   | Inr out2 \<Rightarrow>
                                       (let example_filename = kit @ ''-example.c''
                                        in case example_step s example_filename package kit
                                                  extra_ldflags of
                                             Inl e \<Rightarrow> (Inl e, out2)
                                           | Inr example \<Rightarrow>
                                               (case write_artifact s example_filename example out2 of
                                                  Inl e \<Rightarrow> (Inl e, out2)
                                                | Inr out3 \<Rightarrow>
                                                    (Inr [header_filename, library_filename,
                                                          example_filename], out3)))))))))"

text \<open>
  A run for the kit \<^verbatim>\<open>frida-gum\<close>: the header step is \<open>generate_header\<close> on a tree with
  the umbrella header, the library step is \<open>generate_library_unix\<close> in a given build
  environment.
\<close>

definition demo_tree :: files where
  "demo_tree =
     [''/frida/build/frida-linux-x86_64/include/frida-1.0/gum/gum.h'' \<mapsto>
        ''#include <glib.h>\<newline>void gum_init (void);\<newline>'']"

definition demo_steps :: "tools \<Rightarrow> steps" where
  "demo_steps t =
     \<lparr>file_exists = (\<lambda>path. demo_tree path \<noteq> None),
      header_step = (\<lambda>package umbrella_header_path.
        generate_header package demo_tree [umbrella_header_path]),
      library_step = (\<lambda>package. fst (generate_library_unix t package [])),
      example_step = (\<lambda>filename package kit extra_ldflags. Inr (''/* '' @ filename @ '' */'')),
      can_write = (\<lambda>filename. True)\<rparr>"

section \<open>Properties of the primitives\<close>

lemma fromkeys_foldl:
  "foldl (\<lambda>d k. if k \<in> set d then d else d @ [k]) d xs
     = d @ first_occurrences (filter (\<lambda>x. x \<notin> set d) xs)"
proof (induction xs arbitrary: d)
  case Nil
  show ?case by simp
next
  case (Cons x xs)
  show ?case
  proof (cases "x \<in> set d")
    case True
    then show ?thesis using Cons.IH [of d] by simp
  next
    case False
    have "removeAll x (filter (\<lambda>y. y \<notin> set d) xs) = filter (\<lambda>y. y \<notin> set (d @ [x])) xs"
      by (induction xs) auto
    then show ?thesis using False Cons.IH [of "d @ [x]"] by simp
  qed
qed

lemma deduplicate_first_occurrences: "deduplicate xs = first_occurrences xs"
  using fromkeys_foldl [of "[]" xs] by (simp add: deduplicate_def fromkeys_def)

lemma set_first_occurrences: "set (first_occurrences xs) = set xs"
  by (induction xs rule: first_occurrences.induct) auto

lemma distinct_first_occurrences: "distinct (first_occurrences xs)"
  by (induction xs rule: first_occurrences.induct) (auto simp: set_first_occurrences)

lemma split_sp_nonempty: "split_sp s \<noteq> []"
  by (induction s) (auto split: list.splits)

lemma split_sp_no_space: "t \<in> set (split_sp s) \<Longrightarrow> CHR '' '' \<notin> set t"
proof (induction s arbitrary: t)
  case Nil
  then show ?case by simp
next
  case (Cons c cs)
  obtain w ws where w: "split_sp cs = w # ws"
    using split_sp_nonempty [of cs] by (cases "split_sp cs") auto
  show ?case
  proof (cases "c = CHR '' ''")
    case True
    then show ?thesis using Cons by auto
  next
    case False
    then show ?thesis using Cons.prems Cons.IH w by auto
  qed
qed

lemma split_sp_token: "CHR '' '' \<notin> set t \<Longrightarrow> split_sp t = [t]"
  by (induction t) auto

lemma split_sp_append:
  "CHR '' '' \<notin> set t \<Longrightarrow> split_sp (t @ CHR '' '' # s) = t # split_sp s"
  by (induction t) (auto split: list.splits)

lemma split_sp_join:
  "ts \<noteq> [] \<Longrightarrow> \<forall>t \<in> set ts. CHR '' '' \<notin> set t \<Longrightarrow> split_sp (join '' '' ts) = ts"
proof (induction ts rule: induct_list012)
  case 1
  then show ?case by simp
next
  case (2 x)
  then show ?case by (simp add: split_sp_token)
next
  case (3 x y ys)
  then show ?case by (simp add: split_sp_append)
qed

lemma drop_include_subset: "drop_include ts = Inr ks \<Longrightarrow> set ks \<subseteq> set ts"
proof (induction ts arbitrary: ks rule: drop_include.induct)
  case 1
  then show ?case by simp
next
  case (2 flag pending)
  then show ?case
    by (cases "drop_include pending") (auto split: if_splits list.splits)
qed

lemma set_deduplicate: "set (deduplicate xs) = set xs"
  by (simp add: deduplicate_first_occurrences set_first_occurrences)

section \<open>Properties of flag trimming\<close>

lemma drop_arch_append:
  "drop_arch ex pre = Inr pre' \<Longrightarrow>
   drop_arch ex (pre @ rest) = map_sum id ((@) pre') (drop_arch ex rest)"
proof (induction ex pre arbitrary: pre' rule: drop_arch.induct)
  case (1 ex)
  then show ?case by (cases "drop_arch ex rest") auto
next
  case (2 ex flag pending)
  show ?case
  proof (cases "flag \<in> {''-arch'', ''-isysroot''} \<and> flag \<in> ex")
    case True
    then show ?thesis using 2 by (cases pending) auto
  next
    case False
    then obtain q where q: "drop_arch ex pending = Inr q" "pre' = flag # q"
      using "2.prems" by (cases "drop_arch ex pending") auto
    from "2.IH"(2) [OF False q(1)] False q show ?thesis
      by (cases "drop_arch ex rest") auto
  qed
qed

lemma collect_wl_plain:
  "\<not> startswith flag ''-Wl,'' \<Longrightarrow> collect_wl raw flag pending = (raw, Some flag, pending)"
  by (cases pending) auto

lemma merge_wl_plain:
  "\<not> startswith flag ''-Wl,'' \<Longrightarrow>
   merge_wl ex (flag # pending) = (if flag \<notin> ex then [flag] else []) @ merge_wl ex pending"
  by (simp add: collect_wl_plain)

lemma collect_wl_extend:
  "collect_wl raw flag pending = (raw', flag', pending') \<Longrightarrow>
   \<not> startswith (last (flag # pending)) ''-Wl,'' \<Longrightarrow>
   flag' \<noteq> None \<and> collect_wl raw flag (pending @ rest) = (raw', flag', pending' @ rest)
   \<and> (pending' = [] \<or> \<not> startswith (last pending') ''-Wl,'')"
proof (induction raw flag pending rule: collect_wl.induct)
  case (1 raw_flags flag)
  then show ?case by (auto simp: collect_wl_plain)
next
  case (2 raw_flags flag next_flag pending)
  then show ?case by (auto split: if_splits)
qed

lemma merge_wl_append:
  "pre = [] \<or> \<not> startswith (last pre) ''-Wl,'' \<Longrightarrow>
   merge_wl ex (pre @ rest) = merge_wl ex pre @ merge_wl ex rest"
proof (induction ex pre rule: merge_wl.induct)
  case (1 ex)
  then show ?case by simp
next
  case (2 ex flag pending)
  obtain raw' flag' pending' where c: "collect_wl [] flag pending = (raw', flag', pending')"
    by (cases "collect_wl [] flag pending") auto
  from "2.prems" have l: "\<not> startswith (last (flag # pending)) ''-Wl,''" by simp
  from collect_wl_extend [OF c l, of rest]
  have e: "collect_wl [] flag (pending @ rest) = (raw', flag', pending' @ rest)"
    and p: "pending' = [] \<or> \<not> startswith (last pending') ''-Wl,''" by auto
  from "2.IH" [OF c [symmetric] refl p] c e show ?case by simp
qed

lemma startswith_wl: "startswith (wl x) ''-Wl,''"
  by (simp add: wl_def startswith_def)

lemma drop_wl: "drop 4 (wl x) = x"
  by (simp add: wl_def)

lemma collect_wl_run:
  "post = [] \<or> \<not> startswith (hd post) ''-Wl,'' \<Longrightarrow>
   collect_wl raw (wl x) (map wl xs @ post)
     = (raw @ x # xs, (case post of [] \<Rightarrow> None | p # ps \<Rightarrow> Some p), tl post)"
proof (induction xs arbitrary: raw x)
  case Nil
  then show ?case
    by (cases post) (auto simp: startswith_wl drop_wl collect_wl_plain)
next
  case (Cons y ys)
  then show ?case by (simp add: startswith_wl drop_wl)
qed

lemma merge_wl_run:
  assumes "xs \<noteq> []" and "post = [] \<or> \<not> startswith (hd post) ''-Wl,''"
  shows "merge_wl ex (map wl xs @ post) = wl (join '','' xs) # merge_wl ex post"
proof -
  obtain y ys where xs: "xs = y # ys" using assms(1) by (cases xs) auto
  show ?thesis
  proof (cases post)
    case Nil
    then show ?thesis using collect_wl_run [OF assms(2), of "[]" y ys] xs
      by (simp add: wl_def)
  next
    case (Cons p ps)
    then have "\<not> startswith p ''-Wl,''" using assms(2) by simp
    then show ?thesis using collect_wl_run [OF assms(2), of "[]" y ys] xs Cons
      by (simp add: wl_def collect_wl_plain)
  qed
qed

lemma collect_wl_before_plain:
  "collect_wl raw flag pending = (raw', flag', pending') \<Longrightarrow>
   \<not> startswith f ''-Wl,'' \<Longrightarrow>
   collect_wl raw flag (pending @ f # rest)
     = (case flag' of None \<Rightarrow> (raw', Some f, rest)
        | Some g \<Rightarrow> (raw', Some g, pending' @ f # rest))"
proof (induction raw flag pending rule: collect_wl.induct)
  case (1 raw_flags flag)
  then show ?case by (auto simp: collect_wl_plain split: if_splits)
next
  case (2 raw_flags flag next_flag pending)
  then show ?case by (auto split: if_splits)
qed

lemma collect_wl_None:
  "collect_wl raw flag pending = (raw', None, pending') \<Longrightarrow> pending' = []"
  by (induction raw flag pending rule: collect_wl.induct) (auto split: if_splits)

lemma merge_wl_before_plain:
  "\<not> startswith f ''-Wl,'' \<Longrightarrow>
   merge_wl ex (pre @ f # rest) = merge_wl ex pre @ merge_wl ex (f # rest)"
proof (induction ex pre rule: merge_wl.induct)
  case (1 ex)
  then show ?case by simp
next
  case (2 ex flag pending)
  obtain raw' flag' pending' where c: "collect_wl [] flag pending = (raw', flag', pending')"
    by (cases "collect_wl [] flag pending") auto
  note e = collect_wl_before_plain [OF c "2.prems", of rest]
  show ?case
  proof (cases flag')
    case None
    have "pending' = []" using c None collect_wl_None by blast
    then show ?thesis using None c e "2.prems" by (simp add: collect_wl_plain)
  next
    case (Some g)
    then show ?thesis using c e "2.IH" [OF c [symmetric] refl "2.prems"] by simp
  qed
qed

subsection \<open>C4: duplicates\<close>

text \<open>
  The link output is not deduplicated against itself: two equal link tokens that are not
  compile tokens both survive.
\<close>

theorem trim_flags_link_duplicate_survives:
  "trim_flags ''-O2'' ''-lfoo -lfoo'' = Inr (''-O2'', ''-lfoo -lfoo'')
   \<and> split_sp ''-lfoo -lfoo'' = [''-lfoo'', ''-lfoo'']
   \<and> \<not> distinct (split_sp ''-lfoo -lfoo'')"
  by (simp add: trim_flags_def deduplicate_def fromkeys_def startswith_def)

text \<open>
  Claim C4, amended: whenever \<^verbatim>\<open>trim_flags\<close> returns, no duplicate token survives in the
  compile-flags output: it is the join of the first occurrences, in their order, of the
  compile tokens left after the \<^verbatim>\<open>-include\<close> pairs are dropped, and splitting the
  output gives these tokens back. (Nothing of the kind is promised for the link-flags
  output.)
\<close>

theorem trim_flags_compile_first_occurrences:
  assumes "trim_flags cflags ldflags = Inr (c', l')"
  shows "\<exists>kept. drop_include (split_sp cflags) = Inr kept
           \<and> c' = join '' '' (first_occurrences kept)
           \<and> distinct (first_occurrences kept)
           \<and> set (first_occurrences kept) = set kept
           \<and> split_sp c' = (if kept = [] then [[]] else first_occurrences kept)"
proof -
  from assms obtain kept where k: "drop_include (split_sp cflags) = Inr kept"
    by (cases "drop_include (split_sp cflags)") (auto simp: trim_flags_def)
  with assms have c: "c' = join '' '' (first_occurrences kept)"
    by (auto simp: trim_flags_def Let_def deduplicate_first_occurrences split: sum.splits)
  have nosp: "\<forall>t \<in> set (first_occurrences kept). CHR '' '' \<notin> set t"
    using drop_include_subset [OF k] split_sp_no_space
    by (auto simp: set_first_occurrences)
  have "split_sp c' = (if kept = [] then [[]] else first_occurrences kept)"
  proof (cases "kept = []")
    case True
    then show ?thesis using c by simp
  next
    case False
    then have "first_occurrences kept \<noteq> []" by (cases kept) auto
    then show ?thesis using False c split_sp_join [OF _ nosp] by simp
  qed
  with k c show ?thesis
    by (auto simp: distinct_first_occurrences set_first_occurrences)
qed

theorem trim_flags_compile_first_occurrences_witness:
  "trim_flags ''-O2 -Wall -O2'' ''-lz'' = Inr (''-O2 -Wall'', ''-lz'')
   \<and> (\<exists>kept. drop_include (split_sp ''-O2 -Wall -O2'') = Inr kept
           \<and> ''-O2 -Wall'' = join '' '' (first_occurrences kept)
           \<and> distinct (first_occurrences kept)
           \<and> set (first_occurrences kept) = set kept
           \<and> split_sp ''-O2 -Wall'' = (if kept = [] then [[]] else first_occurrences kept))"
proof -
  have h: "trim_flags ''-O2 -Wall -O2'' ''-lz'' = Inr (''-O2 -Wall'', ''-lz'')"
    by (simp add: trim_flags_def deduplicate_def fromkeys_def startswith_def)
  from h trim_flags_compile_first_occurrences [OF h] show ?thesis by blast
qed

subsection \<open>C6: \<^verbatim>\<open>-arch\<close> and \<^verbatim>\<open>-isysroot\<close> pairs on the link side\<close>

text \<open>
  The test is on the flag token alone: the link pair \<^verbatim>\<open>-arch x86_64\<close> is dropped although
  the compile flags hold \<^verbatim>\<open>-arch arm64\<close> and no \<^verbatim>\<open>x86_64\<close>.
\<close>

theorem trim_flags_arch_value_ignored:
  "trim_flags ''-arch arm64'' ''-arch x86_64 -lm'' = Inr (''-arch arm64'', ''-lm'')
   \<and> ''x86_64'' \<notin> set (split_sp ''-arch arm64'')"
  by (simp add: trim_flags_def deduplicate_def fromkeys_def startswith_def)

text \<open>
  Claim C6, amended: let the link tokens be \<open>pre @ [flag, v] @ post\<close> with \<open>flag\<close> one of
  \<^verbatim>\<open>-arch\<close>, \<^verbatim>\<open>-isysroot\<close>, where the scan of \<open>pre\<close> ends in front of \<open>flag\<close>. If the
  token \<open>flag\<close> itself is among the compile tokens (with whatever value there), the pair
  is dropped as a unit: the result is that of the link tokens \<open>pre @ post\<close>. If \<open>flag\<close> is
  not among the compile tokens, and \<open>v\<close> is neither a compile token nor a \<^verbatim>\<open>-Wl,\<close>
  token, the pair is kept verbatim, at its place.
\<close>

theorem trim_flags_arch_pair:
  assumes "drop_include (split_sp cflags) = Inr kept"
    and "split_sp ldflags = pre @ [flag, v] @ post"
    and "flag \<in> {''-arch'', ''-isysroot''}"
    and "drop_arch (set kept) pre = Inr pre'"
  shows "(flag \<in> set kept \<longrightarrow>
            trim_flags cflags ldflags =
              (case drop_arch (set kept) (pre @ post) of
                 Inl e \<Rightarrow> Inl e
               | Inr p \<Rightarrow> Inr (join '' '' (deduplicate kept), join '' '' (merge_wl (set kept) p))))
       \<and> (flag \<notin> set kept \<and> v \<notin> set kept \<and> \<not> startswith v ''-Wl,'' \<longrightarrow>
            trim_flags cflags ldflags =
              (case drop_arch (set kept) post of
                 Inl e \<Rightarrow> Inl e
               | Inr post' \<Rightarrow>
                   Inr (join '' '' (deduplicate kept),
                        join '' '' (merge_wl (set kept) pre' @ [flag, v] @ merge_wl (set kept) post'))))"
proof (intro conjI impI)
  assume f: "flag \<in> set kept"
  have "drop_arch (set kept) (pre @ [flag, v] @ post) = drop_arch (set kept) (pre @ post)"
    using drop_arch_append [OF assms(4)] assms(3) f by simp
  then show "trim_flags cflags ldflags =
              (case drop_arch (set kept) (pre @ post) of
                 Inl e \<Rightarrow> Inl e
               | Inr p \<Rightarrow> Inr (join '' '' (deduplicate kept), join '' '' (merge_wl (set kept) p)))"
    using assms(1,2)
    by (cases "drop_arch (set kept) (pre @ post)") (simp_all add: trim_flags_def Let_def set_deduplicate)
next
  assume a: "flag \<notin> set kept \<and> v \<notin> set kept \<and> \<not> startswith v ''-Wl,''"
  have pf: "\<not> startswith flag ''-Wl,''" using assms(3) by (auto simp: startswith_def)
  have d: "drop_arch (set kept) (pre @ [flag, v] @ post)
             = map_sum id (\<lambda>q. pre' @ flag # v # q) (drop_arch (set kept) post)"
    using drop_arch_append [OF assms(4), of "[flag, v] @ post"] a
    by (cases "drop_arch (set kept) post") auto
  have m: "merge_wl (set kept) (pre' @ flag # v # q)
             = merge_wl (set kept) pre' @ [flag, v] @ merge_wl (set kept) q" for q
    using merge_wl_before_plain [OF pf, of "set kept" pre' "v # q"] a pf
    by (simp add: merge_wl_plain del: merge_wl.simps)
  show "trim_flags cflags ldflags =
              (case drop_arch (set kept) post of
                 Inl e \<Rightarrow> Inl e
               | Inr post' \<Rightarrow>
                   Inr (join '' '' (deduplicate kept),
                        join '' '' (merge_wl (set kept) pre' @ [flag, v] @ merge_wl (set kept) post')))"
    using assms(1,2) d m
    by (cases "drop_arch (set kept) post") (simp_all add: trim_flags_def Let_def set_deduplicate)
qed

theorem trim_flags_arch_pair_witness:
  "trim_flags ''-O2 -arch x86_64'' ''-lz -arch x86_64 -lm'' = Inr (''-O2 -arch x86_64'', ''-lz -lm'')
   \<and> trim_flags ''-O2'' ''-lz -arch x86_64 -lm'' = Inr (''-O2'', ''-lz -arch x86_64 -lm'')
   \<and> trim_flags ''-isysroot /sdk'' ''-isysroot /other -lm'' = Inr (''-isysroot /sdk'', ''-lm'')"
proof -
  have k1: "drop_include (split_sp ''-O2 -arch x86_64'') = Inr [''-O2'', ''-arch'', ''x86_64'']"
    by simp
  have k2: "drop_include (split_sp ''-O2'') = Inr [''-O2'']"
    by simp
  have k3: "drop_include (split_sp ''-isysroot /sdk'') = Inr [''-isysroot'', ''/sdk'']"
    by simp
  have s: "split_sp ''-lz -arch x86_64 -lm'' = [''-lz''] @ [''-arch'', ''x86_64''] @ [''-lm'']"
    by simp
  have s3: "split_sp ''-isysroot /other -lm'' = [] @ [''-isysroot'', ''/other''] @ [''-lm'']"
    by simp
  have f: "''-arch'' \<in> {''-arch'', ''-isysroot''}" by simp
  have f3: "''-isysroot'' \<in> {''-arch'', ''-isysroot''}" by simp
  have p1: "drop_arch (set [''-O2'', ''-arch'', ''x86_64'']) [''-lz''] = Inr [''-lz'']" by simp
  have p2: "drop_arch (set [''-O2'']) [''-lz''] = Inr [''-lz'']" by simp
  have p3: "drop_arch (set [''-isysroot'', ''/sdk'']) [] = Inr []" by simp
  from trim_flags_arch_pair [OF k1 s f p1]
  have 1: "trim_flags ''-O2 -arch x86_64'' ''-lz -arch x86_64 -lm'' = Inr (''-O2 -arch x86_64'', ''-lz -lm'')"
    by (simp add: deduplicate_def fromkeys_def startswith_def)
  from trim_flags_arch_pair [OF k2 s f p2]
  have 2: "trim_flags ''-O2'' ''-lz -arch x86_64 -lm'' = Inr (''-O2'', ''-lz -arch x86_64 -lm'')"
    by (simp add: deduplicate_def fromkeys_def startswith_def)
  from trim_flags_arch_pair [OF k3 s3 f3 p3]
  have 3: "trim_flags ''-isysroot /sdk'' ''-isysroot /other -lm'' = Inr (''-isysroot /sdk'', ''-lm'')"
    by (simp add: deduplicate_def fromkeys_def startswith_def)
  from 1 2 3 show ?thesis by simp
qed

subsection \<open>C8: runs of \<^verbatim>\<open>-Wl,\<close> tokens\<close>

text \<open>
  The third pass scans the tokens that the second pass left, not the tokens of the
  link-flag string. Two \<^verbatim>\<open>-Wl,\<close> tokens of the string with a dropped \<^verbatim>\<open>-arch\<close> pair between
  them are two runs of the string, and come out as one token; and a \<^verbatim>\<open>-Wl,\<close> token that
  stands where the value of a dropped \<^verbatim>\<open>-arch\<close> is expected is dropped with it, so that the
  run \<^verbatim>\<open>-Wl,a -Wl,b\<close> of the string comes out as \<^verbatim>\<open>-Wl,b\<close>.
\<close>

theorem trim_flags_wl_merged_across_dropped_pair:
  "split_sp ''-Wl,a -arch x86_64 -Wl,b'' = [''-Wl,a'', ''-arch'', ''x86_64'', ''-Wl,b'']
   \<and> trim_flags ''-arch x86_64'' ''-Wl,a -arch x86_64 -Wl,b'' = Inr (''-arch x86_64'', ''-Wl,a,b'')
   \<and> split_sp ''-arch -Wl,a -Wl,b'' = [''-arch'', ''-Wl,a'', ''-Wl,b'']
   \<and> trim_flags ''-arch x86_64'' ''-arch -Wl,a -Wl,b'' = Inr (''-arch x86_64'', ''-Wl,b'')"
  by (simp add: trim_flags_def deduplicate_def fromkeys_def startswith_def)

text \<open>
  Claim C8, amended: in the link tokens that are left once the \<^verbatim>\<open>-arch\<close> and \<^verbatim>\<open>-isysroot\<close>
  pairs have been dropped (the tokens that the third pass scans), a maximal run
  \<^verbatim>\<open>-Wl,x1 ... -Wl,xn\<close> (\<open>n \<ge> 1\<close>; the token before it, if any, and the token after it, if
  any, are not \<^verbatim>\<open>-Wl,\<close> tokens) becomes the single token \<^verbatim>\<open>-Wl,x1,...,xn\<close>, at the place
  of the run.
\<close>

theorem trim_flags_wl_run:
  assumes "drop_include (split_sp cflags) = Inr kept"
    and "drop_arch (set kept) (split_sp ldflags) = Inr (pre @ map wl xs @ post)"
    and "xs \<noteq> []"
    and "pre = [] \<or> \<not> startswith (last pre) ''-Wl,''"
    and "post = [] \<or> \<not> startswith (hd post) ''-Wl,''"
  shows "trim_flags cflags ldflags =
           Inr (join '' '' (deduplicate kept),
                join '' '' (merge_wl (set kept) pre @ [wl (join '','' xs)] @ merge_wl (set kept) post))"
  using assms merge_wl_append [OF assms(4), of "set kept" "map wl xs @ post"]
    merge_wl_run [OF assms(3) assms(5), of "set kept"]
  by (simp add: trim_flags_def Let_def deduplicate_first_occurrences set_first_occurrences)

theorem trim_flags_wl_run_witness:
  "trim_flags ''-O2'' ''-lz -Wl,a -Wl,b -Wl,c -lm'' = Inr (''-O2'', ''-lz -Wl,a,b,c -lm'')"
proof -
  have 1: "drop_include (split_sp ''-O2'') = Inr [''-O2'']" by simp
  have 2: "drop_arch (set [''-O2'']) (split_sp ''-lz -Wl,a -Wl,b -Wl,c -lm'')
             = Inr ([''-lz''] @ map wl [''a'', ''b'', ''c''] @ [''-lm''])"
    by (simp add: wl_def)
  have 3: "[''a'', ''b'', ''c''] \<noteq> []" by simp
  have 4: "[''-lz''] = [] \<or> \<not> startswith (last [''-lz'']) ''-Wl,''" by (simp add: startswith_def)
  have 5: "[''-lm''] = [] \<or> \<not> startswith (hd [''-lm'']) ''-Wl,''" by (simp add: startswith_def)
  from trim_flags_wl_run [OF 1 2 3 4 5] show ?thesis
    by (simp add: deduplicate_def fromkeys_def startswith_def wl_def)
qed

section \<open>Properties of header amalgamation\<close>

lemma concat_file_lines: "concat (file_lines s) = s"
  by (induction s) (auto split: list.splits)

lemma ingest_lines_Cons:
  "ingest_lines fs hs (line # rest) (P, R) =
     (case local_target hs line of
        None \<Rightarrow> ingest_lines fs hs rest (P, R @ [line])
      | Some other \<Rightarrow>
          if other \<notin> P then
            (case ingest_header fs hs other (insert other P, R) of
               Inl e \<Rightarrow> Inl e
             | Inr st' \<Rightarrow> ingest_lines fs hs rest st')
          else ingest_lines fs hs rest (P, R))"
  by (simp add: local_target_def split: option.splits)

lemma ingest_lines_no_local:
  "\<forall>l \<in> set ls. local_target hs l = None \<Longrightarrow> ingest_lines fs hs ls (P, R) = Inr (P, R @ ls)"
  by (induction ls arbitrary: R) (simp_all add: ingest_lines_Cons del: ingest_lines.simps(2))

subsection \<open>C9: a header without local includes\<close>

text \<open>
  Claim C9: if no include directive of \<open>h\<close> names a suffix of \<open>h\<close> itself, amalgamating \<open>h\<close>
  against the closure \<open>[h]\<close> returns the text of \<open>h\<close> unchanged.
\<close>

theorem amalgamate_no_local_includes:
  assumes "fs h = Some content"
    and "\<forall>line \<in> set (file_lines content). \<forall>name.
           include_match (strip line) = Some name \<longrightarrow> \<not> endswith h (CHR ''/'' # name)"
  shows "devkit_header fs [h] = Inr content"
proof -
  have "\<forall>l \<in> set (file_lines content). local_target [h] l = None"
    using assms(2) by (auto simp: local_target_def split: option.splits)
  from ingest_lines_no_local [OF this, of fs "{h}" "[]"] assms(1) show ?thesis
    by (simp add: devkit_header_def concat_file_lines)
qed

theorem amalgamate_no_local_includes_witness:
  "devkit_header demo_plain [''/root/h.h'']
     = Inr ''#include <stdio.h>\<newline>int f (void);\<newline>''"
proof -
  have 1: "demo_plain ''/root/h.h'' = Some ''#include <stdio.h>\<newline>int f (void);\<newline>''"
    by (simp add: demo_plain_def)
  have 2: "\<forall>line \<in> set (file_lines ''#include <stdio.h>\<newline>int f (void);\<newline>''). \<forall>name.
             include_match (strip line) = Some name \<longrightarrow> \<not> endswith ''/root/h.h'' (CHR ''/'' # name)"
    by (simp add: include_match_def strip_def is_space_def startswith_def endswith_def)
  from amalgamate_no_local_includes
         [of demo_plain "''/root/h.h''" "''#include <stdio.h>\<newline>int f (void);\<newline>''", OF 1 2]
  show ?thesis .
qed

subsection \<open>The invariant of the descent\<close>

text \<open>
  \<open>ingest_post\<close> relates the state before the lines \<open>ls\<close> are ingested to the state after:
  the processed set grows, inside the closure; the output grows by the plain lines of
  \<open>ls\<close> and, once each, by the plain lines of every header that became processed; every
  header that became processed has all its local includes processed, and so have \<open>ls\<close>.
\<close>

lemma local_target_in_set: "local_target hs l = Some t \<Longrightarrow> t \<in> set hs"
  by (auto simp: local_target_def find_Some_iff split: option.splits)

lemma targets_Nil: "targets hs [] = {}"
  by (simp add: targets_def)

lemma targets_Cons:
  "targets hs (l # ls) = (case local_target hs l of None \<Rightarrow> {} | Some t \<Rightarrow> {t}) \<union> targets hs ls"
  by (auto simp: targets_def split: option.splits)

lemma succs_targets: "fs x = Some content \<Longrightarrow> succs fs hs x = targets hs (file_lines content)"
  by (auto simp: succs_def targets_def)

lemma bodies_empty: "bodies fs hs {} = {#}"
  by (simp add: bodies_def)

lemma ingest_post_refl: "ingest_post fs hs [] st st"
  by (simp add: ingest_post_def bodies_empty targets_Nil)

lemma ingest_post_plain:
  assumes "local_target hs line = None"
    and "ingest_post fs hs rest (P, R @ [line]) st'"
  shows "ingest_post fs hs (line # rest) (P, R) st'"
  using assms by (simp add: ingest_post_def targets_Cons)

lemma ingest_post_seen:
  assumes "local_target hs line = Some other" and "other \<in> P"
    and "ingest_post fs hs rest (P, R) st'"
  shows "ingest_post fs hs (line # rest) (P, R) st'"
  using assms by (auto simp: ingest_post_def targets_Cons)

lemma ingest_post_inline:
  assumes t: "local_target hs line = Some other" and n: "other \<notin> P"
    and c: "fs other = Some content"
    and 1: "ingest_post fs hs (file_lines content) (insert other P, R) st1"
    and 2: "ingest_post fs hs rest st1 st'"
  shows "ingest_post fs hs (line # rest) (P, R) st'"
proof -
  obtain P1 R1 where st1: "st1 = (P1, R1)" by (cases st1)
  obtain P' R' where st': "st' = (P', R')" by (cases st')
  from 1 st1 have a: "insert other P \<subseteq> P1" "P1 \<subseteq> insert other P \<union> set hs"
    and am: "mset R1 = mset R + mset (own_lines fs hs other) + bodies fs hs (P1 - insert other P)"
    and ac: "\<forall>x \<in> P1 - insert other P. succs fs hs x \<subseteq> P1"
    and at: "succs fs hs other \<subseteq> P1"
    using c by (auto simp: ingest_post_def own_lines_def succs_targets)
  from 2 st1 st' have b: "P1 \<subseteq> P'" "P' \<subseteq> P1 \<union> set hs"
    and bm: "mset R' = mset R1 + mset (filter (\<lambda>l. local_target hs l = None) rest)
               + bodies fs hs (P' - P1)"
    and bc: "\<forall>x \<in> P' - P1. succs fs hs x \<subseteq> P'"
    and bt: "targets hs rest \<subseteq> P'"
    by (auto simp: ingest_post_def)
  have oh: "other \<in> set hs" using t by (rule local_target_in_set)
  have split: "P' - P = insert other ((P1 - insert other P) \<union> (P' - P1))"
    using a b n by auto
  have sub: "P1 - insert other P \<subseteq> set hs" "P' - P1 \<subseteq> set hs"
    using a(2) b(2) by auto
  have fin: "finite (P1 - insert other P)" "finite (P' - P1)"
    by (rule finite_subset [OF sub(1) finite_set], rule finite_subset [OF sub(2) finite_set])
  have o1: "other \<notin> (P1 - insert other P) \<union> (P' - P1)" using a(1) by auto
  have dj: "(P1 - insert other P) \<inter> (P' - P1) = {}" by auto
  have "bodies fs hs (P' - P)
          = mset (own_lines fs hs other) + bodies fs hs (P1 - insert other P) + bodies fs hs (P' - P1)"
    unfolding split bodies_def
    by (simp only: sum.insert [OF finite_UnI [OF fin] o1] sum.union_disjoint [OF fin dj] add.assoc)
  with am bm have m: "mset R' = mset R + mset (filter (\<lambda>l. local_target hs l = None) (line # rest))
                        + bodies fs hs (P' - P)"
    using t by simp
  have cl: "\<forall>x \<in> P' - P. succs fs hs x \<subseteq> P'"
    using ac at bc b(1) split by blast
  have tg: "targets hs (line # rest) \<subseteq> P'"
    using t a(1) b(1) bt by (auto simp: targets_Cons)
  from a b oh m cl tg st' show ?thesis
    by (auto simp: ingest_post_def)
qed

lemma ingest_post_holds:
  "\<forall>st' content. ingest_header fs hs h st = Inr st' \<longrightarrow> fs h = Some content
      \<longrightarrow> ingest_post fs hs (file_lines content) st st'"
  "\<forall>st'. ingest_lines fs hs ls st = Inr st' \<longrightarrow> ingest_post fs hs ls st st'"
proof (induction fs hs h st and fs hs ls st rule: ingest_header_ingest_lines.induct)
  case (1 fs hs h st)
  then show ?case by auto
next
  case (2 fs hs st)
  then show ?case by (simp add: ingest_post_refl)
next
  case (3 fs hs line rest P R)
  show ?case
  proof (intro allI impI)
    fix st'
    assume r: "ingest_lines fs hs (line # rest) (P, R) = Inr st'"
    show "ingest_post fs hs (line # rest) (P, R) st'"
    proof (cases "include_match (strip line)")
      case None
      then have "local_target hs line = None" by (simp add: local_target_def)
      moreover from r None "3.IH"(1) [OF None] have "ingest_post fs hs rest (P, R @ [line]) st'"
        by simp
      ultimately show ?thesis by (rule ingest_post_plain)
    next
      case (Some name)
      show ?thesis
      proof (cases "find (\<lambda>other_header. endswith other_header (CHR ''/'' # name)) hs")
        case None
        then have "local_target hs line = None" using Some by (simp add: local_target_def)
        moreover from r Some None "3.IH"(2) [OF Some None]
        have "ingest_post fs hs rest (P, R @ [line]) st'" by simp
        ultimately show ?thesis by (rule ingest_post_plain)
      next
        case f: (Some other)
        then have t: "local_target hs line = Some other" using Some by (simp add: local_target_def)
        show ?thesis
        proof (cases "other \<in> P")
          case True
          from r Some f True "3.IH"(5) [OF Some f] have "ingest_post fs hs rest (P, R) st'"
            by simp
          with t True show ?thesis by (rule ingest_post_seen)
        next
          case False
          with r Some f obtain st1 where
            a: "ingest_header fs hs other (insert other P, R) = Inr st1"
            and b: "ingest_lines fs hs rest st1 = Inr st'"
            by (auto split: sum.splits)
          from a obtain content where c: "fs other = Some content"
            by (cases "fs other") auto
          from "3.IH"(3) [OF Some f False] a c
          have 1: "ingest_post fs hs (file_lines content) (insert other P, R) st1" by blast
          from "3.IH"(4) [OF Some f False a] b
          have 2: "ingest_post fs hs rest st1 st'" by blast
          from t False c 1 2 show ?thesis by (rule ingest_post_inline)
        qed
      qed
    qed
  qed
qed

lemma ingest_ok:
  "(\<forall>x \<in> set hs. fs x \<noteq> None) \<longrightarrow> fs h \<noteq> None \<longrightarrow> (\<exists>st'. ingest_header fs hs h st = Inr st')"
  "(\<forall>x \<in> set hs. fs x \<noteq> None) \<longrightarrow> (\<exists>st'. ingest_lines fs hs ls st = Inr st')"
proof (induction fs hs h st and fs hs ls st rule: ingest_header_ingest_lines.induct)
  case (1 fs hs h st)
  then show ?case by (cases "fs h") auto
next
  case (2 fs hs st)
  then show ?case by simp
next
  case (3 fs hs line rest P R)
  show ?case
  proof
    assume ex: "\<forall>x \<in> set hs. fs x \<noteq> None"
    show "\<exists>st'. ingest_lines fs hs (line # rest) (P, R) = Inr st'"
    proof (cases "include_match (strip line)")
      case None
      with "3.IH"(1) [OF None] ex show ?thesis by simp
    next
      case (Some name)
      show ?thesis
      proof (cases "find (\<lambda>other_header. endswith other_header (CHR ''/'' # name)) hs")
        case None
        with Some "3.IH"(2) [OF Some None] ex show ?thesis by simp
      next
        case f: (Some other)
        then have "other \<in> set hs" by (auto simp: find_Some_iff)
        with ex have fo: "fs other \<noteq> None" by blast
        show ?thesis
        proof (cases "other \<in> P")
          case True
          with Some f "3.IH"(5) [OF Some f] ex show ?thesis by simp
        next
          case False
          from "3.IH"(3) [OF Some f False] ex fo obtain st1 where
            a: "ingest_header fs hs other (insert other P, R) = Inr st1" by blast
          from "3.IH"(4) [OF Some f False a] ex obtain st' where
            "ingest_lines fs hs rest st1 = Inr st'" by blast
          with Some f False a show ?thesis by simp
        qed
      qed
    qed
  qed
qed

lemma ingest_reachable:
  "\<forall>st'. ingest_header fs hs h st = Inr st' \<longrightarrow> h \<in> reachable fs hs u
      \<longrightarrow> fst st \<subseteq> reachable fs hs u \<longrightarrow> fst st' \<subseteq> reachable fs hs u"
  "\<forall>st'. ingest_lines fs hs ls st = Inr st' \<longrightarrow> targets hs ls \<subseteq> reachable fs hs u
      \<longrightarrow> fst st \<subseteq> reachable fs hs u \<longrightarrow> fst st' \<subseteq> reachable fs hs u"
proof (induction fs hs h st and fs hs ls st rule: ingest_header_ingest_lines.induct)
  case (1 fs hs h st)
  show ?case
  proof (intro allI impI)
    fix st'
    assume r: "ingest_header fs hs h st = Inr st'" and h: "h \<in> reachable fs hs u"
      and p: "fst st \<subseteq> reachable fs hs u"
    from r obtain content where c: "fs h = Some content" by (cases "fs h") auto
    have t: "targets hs (file_lines content) \<subseteq> reachable fs hs u"
      using h c by (auto simp: targets_def intro: reachable.step)
    from r c have l: "ingest_lines fs hs (file_lines content) st = Inr st'" by simp
    from "1.IH" [OF c, rule_format, OF l t p] show "fst st' \<subseteq> reachable fs hs u" .
  qed
next
  case (2 fs hs st)
  then show ?case by simp
next
  case (3 fs hs line rest P R)
  show ?case
  proof (intro allI impI)
    fix st'
    assume r: "ingest_lines fs hs (line # rest) (P, R) = Inr st'"
      and t: "targets hs (line # rest) \<subseteq> reachable fs hs u"
      and p: "fst (P, R) \<subseteq> reachable fs hs u"
    from t have tr: "targets hs rest \<subseteq> reachable fs hs u" by (auto simp: targets_Cons)
    from p have p1: "fst (P, R @ [line]) \<subseteq> reachable fs hs u" by simp
    show "fst st' \<subseteq> reachable fs hs u"
    proof (cases "include_match (strip line)")
      case None
      with r have l: "ingest_lines fs hs rest (P, R @ [line]) = Inr st'" by simp
      from "3.IH"(1) [OF None, rule_format, OF l tr p1] show ?thesis .
    next
      case (Some name)
      show ?thesis
      proof (cases "find (\<lambda>other_header. endswith other_header (CHR ''/'' # name)) hs")
        case None
        with r Some have l: "ingest_lines fs hs rest (P, R @ [line]) = Inr st'" by simp
        from "3.IH"(2) [OF Some None, rule_format, OF l tr p1] show ?thesis .
      next
        case f: (Some other)
        then have "local_target hs line = Some other" using Some by (simp add: local_target_def)
        with t have o: "other \<in> reachable fs hs u" by (auto simp: targets_Cons)
        show ?thesis
        proof (cases "other \<in> P")
          case True
          with r Some f have l: "ingest_lines fs hs rest (P, R) = Inr st'" by simp
          from True have n: "\<not> other \<notin> P" by simp
          from "3.IH"(5) [OF Some f n, rule_format, OF l tr p] show ?thesis .
        next
          case False
          with r Some f obtain st1 where
            a: "ingest_header fs hs other (insert other P, R) = Inr st1"
            and b: "ingest_lines fs hs rest st1 = Inr st'"
            by (auto split: sum.splits)
          from o p have p2: "fst (insert other P, R) \<subseteq> reachable fs hs u" by simp
          from "3.IH"(3) [OF Some f False, rule_format, OF a o p2]
          have p3: "fst st1 \<subseteq> reachable fs hs u" .
          from "3.IH"(4) [OF Some f False a, rule_format, OF b tr p3] show ?thesis .
        qed
      qed
    qed
  qed
qed

lemma closed_reachable:
  assumes "u \<in> P" and "\<forall>x \<in> P. succs fs hs x \<subseteq> P"
  shows "reachable fs hs u \<subseteq> P"
proof
  fix x
  assume "x \<in> reachable fs hs u"
  then show "x \<in> P"
  proof (induction rule: reachable.induct)
    case root
    show ?case by (rule assms(1))
  next
    case (step header content line other_header)
    then have "other_header \<in> succs fs hs header" by (auto simp: succs_def)
    with step.IH assms(2) show ?case by blast
  qed
qed

subsection \<open>C2: every reachable header exactly once\<close>

text \<open>
  Claim C2: \<open>ingest_header\<close> is a total function (its termination is proved above, for
  every file tree and closure, cyclic or not). When the files of the closure can be
  opened, the amalgamation of the umbrella header \<open>header_files[0]\<close> returns a text, the
  processed set is exactly the set of headers reachable from the umbrella header through
  local includes, and the output lines are, as a multiset, the sum over the reachable
  headers of their plain lines: each reachable header is spliced in exactly once, however
  many headers include it.
\<close>

theorem amalgamate_each_reachable_header_once:
  assumes "\<forall>h \<in> set (umbrella # others). fs h \<noteq> None"
  shows "\<exists>processed lines.
           ingest_header fs (umbrella # others) umbrella ({umbrella}, []) = Inr (processed, lines)
         \<and> devkit_header fs (umbrella # others) = Inr (concat lines)
         \<and> processed = reachable fs (umbrella # others) umbrella
         \<and> mset lines = (\<Sum>h \<in> reachable fs (umbrella # others) umbrella.
                            mset (own_lines fs (umbrella # others) h))"
proof -
  let ?hs = "umbrella # others"
  from assms obtain content where c: "fs umbrella = Some content" by auto
  from ingest_ok(1) [of ?hs fs umbrella "({umbrella}, [])"] assms
  obtain P R where r: "ingest_header fs ?hs umbrella ({umbrella}, []) = Inr (P, R)"
    by fastforce
  from ingest_post_holds(1) [of fs ?hs umbrella "({umbrella}, [])"] r c
  have post: "ingest_post fs ?hs (file_lines content) ({umbrella}, []) (P, R)" by blast
  then have u: "umbrella \<in> P" and sub: "P \<subseteq> {umbrella} \<union> set ?hs"
    and m: "mset R = mset (own_lines fs ?hs umbrella) + bodies fs ?hs (P - {umbrella})"
    and cl: "\<forall>x \<in> P - {umbrella}. succs fs ?hs x \<subseteq> P"
    and tu: "succs fs ?hs umbrella \<subseteq> P"
    using c by (auto simp: ingest_post_def own_lines_def succs_targets)
  from cl tu have "\<forall>x \<in> P. succs fs ?hs x \<subseteq> P" by blast
  with u have 1: "reachable fs ?hs umbrella \<subseteq> P" by (rule closed_reachable)
  have "fst ({umbrella}, []::string list) \<subseteq> reachable fs ?hs umbrella"
    by (simp add: reachable.root)
  from ingest_reachable(1) [rule_format, OF r reachable.root this]
  have 2: "P \<subseteq> reachable fs ?hs umbrella" by simp
  from 1 2 have eq: "P = reachable fs ?hs umbrella" by blast
  have "finite P" using sub by (rule finite_subset) simp
  then have "finite (P - {umbrella})" by simp
  then have "bodies fs ?hs P = mset (own_lines fs ?hs umbrella) + bodies fs ?hs (P - {umbrella})"
    unfolding bodies_def using u by (simp add: sum.remove)
  with m have "mset R = bodies fs ?hs P" by simp
  with eq have "mset R = (\<Sum>h \<in> reachable fs ?hs umbrella. mset (own_lines fs ?hs h))"
    by (simp add: bodies_def)
  with r eq show ?thesis by (simp add: devkit_header_def)
qed

theorem amalgamate_each_reachable_header_once_witness:
  \<open>devkit_header demo_cycle [''/r/a.h'', ''/r/b.h'', ''/r/c.h'']
     = Inr ''int c;\<newline>#include <stdio.h>\<newline>int b;\<newline>int a;\<newline>''
   \<and> (\<exists>processed lines.
           ingest_header demo_cycle [''/r/a.h'', ''/r/b.h'', ''/r/c.h''] ''/r/a.h'' ({''/r/a.h''}, [])
             = Inr (processed, lines)
         \<and> devkit_header demo_cycle [''/r/a.h'', ''/r/b.h'', ''/r/c.h''] = Inr (concat lines)
         \<and> processed = reachable demo_cycle [''/r/a.h'', ''/r/b.h'', ''/r/c.h''] ''/r/a.h''
         \<and> mset lines = (\<Sum>h \<in> reachable demo_cycle [''/r/a.h'', ''/r/b.h'', ''/r/c.h''] ''/r/a.h''.
                            mset (own_lines demo_cycle [''/r/a.h'', ''/r/b.h'', ''/r/c.h''] h)))\<close>
proof -
  have h: "\<forall>h \<in> set (''/r/a.h'' # [''/r/b.h'', ''/r/c.h'']). demo_cycle h \<noteq> None"
    by (simp add: demo_cycle_def)
  have e: \<open>devkit_header demo_cycle [''/r/a.h'', ''/r/b.h'', ''/r/c.h'']
     = Inr ''int c;\<newline>#include <stdio.h>\<newline>int b;\<newline>int a;\<newline>''\<close>
    by (simp add: devkit_header_def demo_cycle_def include_match_def strip_def is_space_def
        startswith_def endswith_def)
  from e amalgamate_each_reachable_header_once [OF h] show ?thesis by blast
qed

subsection \<open>C10: no kit of the catalog gets the configuration line\<close>

text \<open>
  Claim C10: every package of the catalog starts with \<^verbatim>\<open>frida-\<close>, not with \<^verbatim>\<open>gum\<close>, so
  the configuration prefix is empty and \<^verbatim>\<open>generate_header\<close> returns the amalgamated
  header as it is.
\<close>

theorem catalog_never_gum_static:
  assumes "DEVKITS kit = Some (package, umbrella_header)"
  shows "\<not> startswith package ''gum'' \<and> config package = []
       \<and> generate_header package fs header_files = devkit_header fs header_files"
proof -
  from assms have "\<not> startswith package ''gum''"
    by (auto simp: DEVKITS_def startswith_def split: if_splits)
  then show ?thesis
    by (cases "devkit_header fs header_files") (simp_all add: generate_header_def config_def)
qed

theorem catalog_never_gum_static_witness:
  "\<not> startswith ''frida-gum-1.0'' ''gum'' \<and> config ''frida-gum-1.0'' = []
   \<and> generate_header ''frida-gum-1.0'' demo_plain [''/root/h.h'']
       = Inr ''#include <stdio.h>\<newline>int f (void);\<newline>''"
proof -
  have k: "DEVKITS ''frida-gum'' = Some (''frida-gum-1.0'', [''frida-1.0'', ''gum'', ''gum.h''])"
    by (simp add: DEVKITS_def)
  have d: "devkit_header demo_plain [''/root/h.h'']
             = Inr ''#include <stdio.h>\<newline>int f (void);\<newline>''"
    by (simp add: devkit_header_def demo_plain_def include_match_def strip_def is_space_def
        startswith_def endswith_def)
  from catalog_never_gum_static [OF k, of demo_plain "[''/root/h.h'']"] d show ?thesis by simp
qed

section \<open>Properties of the mapping from link flags to archives\<close>

lemma probe_find: "probe exists name dirs = find exists (map (candidate name) dirs)"
  by (induction dirs) auto

lemma probe_None: "probe exists name dirs = None \<longleftrightarrow> (\<forall>d \<in> set dirs. \<not> exists (candidate name d))"
  by (induction dirs) auto

lemma resolve_loop_acc:
  "resolve_loop exists dirs names (paths, flags) =
     (paths @ List.map_filter (\<lambda>name. probe exists name dirs) names,
      flags @ map ((@) ''-l'') (filter (\<lambda>name. probe exists name dirs = None) names))"
  by (induction names arbitrary: paths flags) (auto simp: List.map_filter_simps split: option.splits)

lemma set_map_filter: "set (List.map_filter f xs) = {y. \<exists>x \<in> set xs. f x = Some y}"
  by (induction xs) (auto simp: List.map_filter_simps split: option.splits)

subsection \<open>C5: resolving library names\<close>

text \<open>
  Whatever the order in which the set is iterated: each library name is mapped to the
  first existing candidate \<^verbatim>\<open>lib<name>.a\<close> in the order of the search directories; the
  passthrough flags are \<^verbatim>\<open>-l<name>\<close> for exactly the names without a match in any
  directory, in the order of the names; the resolved paths are returned without
  repetition.
\<close>

lemma resolve_library_paths_first_hit:
  assumes "\<And>S. finite S \<Longrightarrow> set (list_of_set S) = S \<and> distinct (list_of_set S)"
    and "resolve_library_paths list_of_set exists names dirs = (paths, flags)"
  shows "distinct paths
       \<and> set paths = {p. \<exists>name \<in> set names. find exists (map (candidate name) dirs) = Some p}
       \<and> flags = map ((@) ''-l'')
                   (filter (\<lambda>name. \<forall>d \<in> set dirs. \<not> exists (candidate name d)) names)"
proof -
  let ?hits = "List.map_filter (\<lambda>name. probe exists name dirs) names"
  from assms(2) have p: "paths = list_of_set (set ?hits)"
    and f: "flags = map ((@) ''-l'') (filter (\<lambda>name. probe exists name dirs = None) names)"
    by (simp_all add: resolve_library_paths_def resolve_loop_acc)
  from assms(1) [of "set ?hits"] p have "distinct paths" and "set paths = set ?hits" by simp_all
  with f show ?thesis by (simp add: set_map_filter probe_find [symmetric] probe_None)
qed

lemma resolve_library_paths_first_hit_witness:
  "resolve_library_paths sorted_list_of_set (\<lambda>p. p = ''/e/liba.a'' \<or> p = ''/f/liba.a'')
       [''z'', ''a'', ''a''] [''/d'', ''/e'', ''/f'']
     = ([''/e/liba.a''], [''-lz''])
   \<and> set [''/e/liba.a''] = {p. \<exists>name \<in> set [''z'', ''a'', ''a''].
         find (\<lambda>p. p = ''/e/liba.a'' \<or> p = ''/f/liba.a'')
           (map (candidate name) [''/d'', ''/e'', ''/f'']) = Some p}"
proof -
  have g: "\<And>S::string set. finite S \<Longrightarrow>
             set (sorted_list_of_set S) = S \<and> distinct (sorted_list_of_set S)"
    by simp
  have e: "resolve_library_paths sorted_list_of_set (\<lambda>p. p = ''/e/liba.a'' \<or> p = ''/f/liba.a'')
       [''z'', ''a'', ''a''] [''/d'', ''/e'', ''/f'']
     = ([''/e/liba.a''], [''-lz''])"
    by (simp add: resolve_library_paths_def candidate_def path_join_def startswith_def
        endswith_def)
  from e resolve_library_paths_first_hit [OF g e] show ?thesis by blast
qed

text \<open>
  Claim C5: the resolved paths are to come back in the order of their first occurrences,
  as \<^verbatim>\<open>deduplicate\<close> returns the Windows dependency lists. \<^verbatim>\<open>list(set(paths))\<close> does not keep
  that order: the libraries \<^verbatim>\<open>b\<close> and \<^verbatim>\<open>a\<close>, resolved in this order to \<^verbatim>\<open>/d/libb.a\<close> and
  \<^verbatim>\<open>/d/liba.a\<close>, come back as \<^verbatim>\<open>/d/liba.a\<close>, \<^verbatim>\<open>/d/libb.a\<close> when the set is iterated in
  sorted order, which is one of the orders that the hashes of the two strings can give;
  \<^verbatim>\<open>deduplicate\<close> on the same list keeps the order of the first occurrences.
\<close>

theorem resolve_library_paths_order_lost:
  "fst (resolve_loop (\<lambda>p. True) [''/d''] [''b'', ''a''] ([], [])) = [''/d/libb.a'', ''/d/liba.a'']
   \<and> resolve_library_paths sorted_list_of_set (\<lambda>p. True) [''b'', ''a''] [''/d'']
     = ([''/d/liba.a'', ''/d/libb.a''], [])
   \<and> first_occurrences [''/d/libb.a'', ''/d/liba.a''] = [''/d/libb.a'', ''/d/liba.a'']
   \<and> deduplicate [''/d/libb.a'', ''/d/liba.a''] = [''/d/libb.a'', ''/d/liba.a'']"
  by (simp add: resolve_library_paths_def candidate_def path_join_def startswith_def endswith_def
      sorted_list_of_set_insert_remove less_eq_char_def less_char_def deduplicate_def fromkeys_def)

section \<open>Properties of archive combination\<close>

lemma foldr_max_ge: "x \<in> set xs \<Longrightarrow> x \<le> foldr max xs (0::nat)"
  by (induction xs) (auto simp: max_def)

lemma mkdtemp_fresh:
  "\<exists>d. mkdtemp w = (d, w @ [(d, Map.empty)]) \<and> d \<notin> fst ` set w"
proof -
  have "Suc (foldr max (map fst w) 0) \<notin> fst ` set w"
  proof
    assume "Suc (foldr max (map fst w) 0) \<in> fst ` set w"
    then have "Suc (foldr max (map fst w) 0) \<in> set (map fst w)" by simp
    from foldr_max_ge [OF this] show False by simp
  qed
  then show ?thesis by (simp add: mkdtemp_def Let_def)
qed

lemma write_file_frame:
  "d \<notin> fst ` set w0 \<Longrightarrow> write_file d name content (w0 @ v) = w0 @ write_file d name content v"
  by (induction w0) (auto simp: write_file_def)

lemma remove_file_frame:
  "d \<notin> fst ` set w0 \<Longrightarrow> remove_file d name (w0 @ v) = w0 @ remove_file d name v"
  by (induction w0) (auto simp: remove_file_def)

lemma rmtree_frame:
  "d \<notin> fst ` set w0 \<Longrightarrow> rmtree d (w0 @ v) = w0 @ rmtree d v"
  by (induction w0) (auto simp: rmtree_def)

lemma write_file_Nil: "write_file d name content [] = []"
  by (simp add: write_file_def)

lemma write_file_Cons:
  "write_file d name content ((k, files) # v) =
     (if k = d then (d, files(name \<mapsto> content)) else (k, files)) # write_file d name content v"
  by (simp add: write_file_def)

lemma remove_file_Nil: "remove_file d name [] = []"
  by (simp add: remove_file_def)

lemma remove_file_Cons:
  "remove_file d name ((k, files) # v) =
     (if k = d then (d, files(name := None)) else (k, files)) # remove_file d name v"
  by (simp add: remove_file_def)

lemma rmtree_Nil: "rmtree d [] = []"
  by (simp add: rmtree_def)

lemma rmtree_Cons: "rmtree d ((k, files) # v) = (if k = d then rmtree d v else (k, files) # rmtree d v)"
  by (simp add: rmtree_def)

lemmas tmp_simps = write_file_Nil write_file_Cons remove_file_Nil remove_file_Cons
  rmtree_Nil rmtree_Cons

lemma extract_into_frame:
  assumes "s \<notin> fst ` set w0" and "s \<noteq> c"
  shows "\<exists>sdir'. extract_into s files (w0 @ [(c, cdir), (s, sdir)]) = w0 @ [(c, cdir), (s, sdir')]"
  using assms
proof (induction files arbitrary: sdir)
  case Nil
  then show ?case by simp
next
  case (Cons f files)
  obtain name content where f: "f = (name, content)" by (cases f)
  from Cons.prems have w: "write_file s name content (w0 @ [(c, cdir), (s, sdir)])
      = w0 @ [(c, cdir), (s, sdir(name \<mapsto> content))]"
    by (simp add: write_file_frame tmp_simps)
  from Cons.IH [OF Cons.prems, of "sdir(name \<mapsto> content)"] obtain sdir' where
    "extract_into s files (w0 @ [(c, cdir), (s, sdir(name \<mapsto> content))])
       = w0 @ [(c, cdir), (s, sdir')]" by blast
  then have "extract_into s (f # files) (w0 @ [(c, cdir), (s, sdir)]) = w0 @ [(c, cdir), (s, sdir')]"
    by (simp only: f extract_into.simps w)
  then show ?case by blast
qed



lemma move_objects_claim:
  assumes "s \<notin> fst ` set w0" and "c \<notin> fst ` set w0" and "s \<noteq> c"
  shows "\<exists>sdir'.
           move_objects s c objects (names, w0 @ [(c, cdir), (s, sdir)])
             = (fst (claim_names objects (names, cdir)),
                w0 @ [(c, snd (claim_names objects (names, cdir))), (s, sdir')])"
  using assms
proof (induction objects arbitrary: names cdir sdir)
  case Nil
  then show ?case by simp
next
  case (Cons f objects)
  obtain name content where f: "f = (name, content)" by (cases f)
  let ?n = "unique_name names name"
  from Cons.prems have w: "write_file c ?n content (remove_file s name (w0 @ [(c, cdir), (s, sdir)]))
      = w0 @ [(c, cdir(?n \<mapsto> content)), (s, sdir(name := None))]"
    by (simp add: write_file_frame remove_file_frame tmp_simps)
  from Cons.IH [OF Cons.prems, of "finsert ?n names" "cdir(?n \<mapsto> content)" "sdir(name := None)"]
  obtain sdir' where
    "move_objects s c objects
       (finsert ?n names, w0 @ [(c, cdir(?n \<mapsto> content)), (s, sdir(name := None))])
       = (fst (claim_names objects (finsert ?n names, cdir(?n \<mapsto> content))),
          w0 @ [(c, snd (claim_names objects (finsert ?n names, cdir(?n \<mapsto> content)))), (s, sdir')])"
    by blast
  then have "move_objects s c (f # objects) (names, w0 @ [(c, cdir), (s, sdir)])
       = (fst (claim_names (f # objects) (names, cdir)),
          w0 @ [(c, snd (claim_names (f # objects) (names, cdir))), (s, sdir')])"
    by (simp only: f move_objects.simps claim_names.simps Let_def w)
  then show ?case by blast
qed

lemma combine_archives_step:
  assumes "c \<notin> fst ` set w0" and "ar_x t library_path = Inr files"
  shows "combine_archives t c (library_path # library_paths) (names, w0 @ [(c, cdir)])
           = combine_archives t c library_paths
               (fst (claim_names (filter (\<lambda>f. glob_o (fst f)) files) (names, cdir)),
                w0 @ [(c, snd (claim_names (filter (\<lambda>f. glob_o (fst f)) files) (names, cdir)))])"
proof -
  let ?w = "w0 @ [(c, cdir)]"
  let ?objs = "filter (\<lambda>f. glob_o (fst f)) files"
  from mkdtemp_fresh [of ?w] obtain s where
    mk: "mkdtemp ?w = (s, w0 @ [(c, cdir), (s, Map.empty)])"
    and fr: "s \<notin> fst ` set w0" "s \<noteq> c" by auto
  from extract_into_frame [OF fr, of files cdir Map.empty] obtain sdir1 where
    ex: "extract_into s files (w0 @ [(c, cdir), (s, Map.empty)]) = w0 @ [(c, cdir), (s, sdir1)]"
    by blast
  from move_objects_claim [OF fr(1) assms(1) fr(2), of ?objs names cdir sdir1]
  obtain sdir2 where
    mv: "move_objects s c ?objs (names, w0 @ [(c, cdir), (s, sdir1)])
           = (fst (claim_names ?objs (names, cdir)),
              w0 @ [(c, snd (claim_names ?objs (names, cdir))), (s, sdir2)])" by blast
  have rm: "rmtree s (w0 @ [(c, snd (claim_names ?objs (names, cdir))), (s, sdir2)])
              = w0 @ [(c, snd (claim_names ?objs (names, cdir)))]"
    using fr by (simp add: rmtree_frame tmp_simps)
  show ?thesis using mk assms(2) ex mv rm by simp
qed

lemmas demo_eval = demo_tools_def demo_tools_broken_def demo_ar_x_def
  generate_library_unix_def resolve_library_paths_def
  infer_library_dirs_def infer_library_names_def infer_linker_flags_def candidate_def
  path_join_def strip_def is_space_def startswith_def endswith_def glob_o_def
  mkdtemp_def sorted_list_of_set_insert_remove less_eq_char_def less_char_def

lemma demo_library_ok:
  "generate_library_unix demo_tools ''frida-gum-1.0'' []
     = (Inr (''!<arch>'', [''-lm'', ''-Wl,--gc-sections'']), [])"
  apply (simp add: demo_eval)
  apply (simp add: unique_name.simps Let_def)
  apply (simp add: tmp_simps read_dir_def)
  done

lemma demo_library_broken:
  "fst (generate_library_unix demo_tools_broken ''frida-gum-1.0'' [])
     = Inl (CalledProcessError ''ar x'')"
  apply (simp add: demo_eval)
  apply (simp add: unique_name.simps Let_def)
  done

subsection \<open>C7: member-name collisions\<close>

text \<open>
  Archive \<^verbatim>\<open>libA.a\<close> with members \<^verbatim>\<open>x.o\<close>, \<^verbatim>\<open>y.o\<close> and then \<^verbatim>\<open>libB.a\<close> with members
  \<^verbatim>\<open>x.o\<close>, \<^verbatim>\<open>z.o\<close> give four object files, not three.
\<close>

theorem combine_archives_four_members:
  "fst (combine_archives demo_tools 1 [''/d/libA.a'', ''/d/libB.a''] ({||}, [(1, Map.empty)]))
     = Inr {|''x.o'', ''y.o'', ''_x.o'', ''z.o''|}
   \<and> fcard {|''x.o'', ''y.o'', ''_x.o'', ''z.o''|} = 4"
  apply (simp add: demo_eval fcard_finsert_if)
  apply (simp add: unique_name.simps Let_def)
  apply auto
  done

text \<open>
  Claim C7, amended: archive \<open>A\<close> with members \<^verbatim>\<open>x.o\<close>, \<^verbatim>\<open>y.o\<close> processed before archive \<open>B\<close>
  with members \<^verbatim>\<open>x.o\<close>, \<^verbatim>\<open>z.o\<close> leaves exactly four object files to pack: \<^verbatim>\<open>x.o\<close> and
  \<^verbatim>\<open>y.o\<close> of \<open>A\<close>, \<^verbatim>\<open>z.o\<close> of \<open>B\<close>, and the \<^verbatim>\<open>x.o\<close> of \<open>B\<close> under the name \<^verbatim>\<open>_x.o\<close>. In the
  other order it is the \<^verbatim>\<open>x.o\<close> of \<open>A\<close> that becomes \<^verbatim>\<open>_x.o\<close>.
\<close>

theorem combine_archives_collision:
  assumes "ar_x t A = Inr [(''x.o'', ax), (''y.o'', ay)]"
    and "ar_x t B = Inr [(''x.o'', bx), (''z.o'', bz)]"
    and "c \<notin> fst ` set w0"
  shows "combine_archives t c [A, B] ({||}, w0 @ [(c, Map.empty)])
           = (Inr {|''x.o'', ''y.o'', ''_x.o'', ''z.o''|},
              w0 @ [(c, [''x.o'' \<mapsto> ax, ''y.o'' \<mapsto> ay, ''_x.o'' \<mapsto> bx, ''z.o'' \<mapsto> bz])])
       \<and> combine_archives t c [B, A] ({||}, w0 @ [(c, Map.empty)])
           = (Inr {|''x.o'', ''z.o'', ''_x.o'', ''y.o''|},
              w0 @ [(c, [''x.o'' \<mapsto> bx, ''z.o'' \<mapsto> bz, ''_x.o'' \<mapsto> ax, ''y.o'' \<mapsto> ay])])
       \<and> fcard {|''x.o'', ''y.o'', ''_x.o'', ''z.o''|} = 4"
proof -
  have ga: "filter (\<lambda>f. glob_o (fst f)) [(''x.o'', ax), (''y.o'', ay)] = [(''x.o'', ax), (''y.o'', ay)]"
    and gb: "filter (\<lambda>f. glob_o (fst f)) [(''x.o'', bx), (''z.o'', bz)] = [(''x.o'', bx), (''z.o'', bz)]"
    by (simp_all add: glob_o_def endswith_def startswith_def)
  have ca: "claim_names [(''x.o'', ax), (''y.o'', ay)] ({||}, Map.empty)
              = ({|''y.o'', ''x.o''|}, [''x.o'' \<mapsto> ax, ''y.o'' \<mapsto> ay])"
    and cb: "claim_names [(''x.o'', bx), (''z.o'', bz)] ({||}, Map.empty)
              = ({|''z.o'', ''x.o''|}, [''x.o'' \<mapsto> bx, ''z.o'' \<mapsto> bz])"
    and cab: "claim_names [(''x.o'', bx), (''z.o'', bz)]
                ({|''y.o'', ''x.o''|}, [''x.o'' \<mapsto> ax, ''y.o'' \<mapsto> ay])
              = ({|''z.o'', ''_x.o'', ''y.o'', ''x.o''|},
                 [''x.o'' \<mapsto> ax, ''y.o'' \<mapsto> ay, ''_x.o'' \<mapsto> bx, ''z.o'' \<mapsto> bz])"
    and cba: "claim_names [(''x.o'', ax), (''y.o'', ay)]
                ({|''z.o'', ''x.o''|}, [''x.o'' \<mapsto> bx, ''z.o'' \<mapsto> bz])
              = ({|''y.o'', ''_x.o'', ''z.o'', ''x.o''|},
                 [''x.o'' \<mapsto> bx, ''z.o'' \<mapsto> bz, ''_x.o'' \<mapsto> ax, ''y.o'' \<mapsto> ay])"
    by (simp_all add: unique_name.simps Let_def)
  have "combine_archives t c [A, B] ({||}, w0 @ [(c, Map.empty)])
          = combine_archives t c [B]
              ({|''y.o'', ''x.o''|}, w0 @ [(c, [''x.o'' \<mapsto> ax, ''y.o'' \<mapsto> ay])])"
    by (simp only: combine_archives_step [OF assms(3) assms(1)] ga ca fst_conv snd_conv)
  also have "\<dots> = combine_archives t c []
              ({|''z.o'', ''_x.o'', ''y.o'', ''x.o''|},
               w0 @ [(c, [''x.o'' \<mapsto> ax, ''y.o'' \<mapsto> ay, ''_x.o'' \<mapsto> bx, ''z.o'' \<mapsto> bz])])"
    by (simp only: combine_archives_step [OF assms(3) assms(2)] gb cab fst_conv snd_conv)
  finally have 1: "combine_archives t c [A, B] ({||}, w0 @ [(c, Map.empty)])
           = (Inr {|''x.o'', ''y.o'', ''_x.o'', ''z.o''|},
              w0 @ [(c, [''x.o'' \<mapsto> ax, ''y.o'' \<mapsto> ay, ''_x.o'' \<mapsto> bx, ''z.o'' \<mapsto> bz])])"
    by auto
  have "combine_archives t c [B, A] ({||}, w0 @ [(c, Map.empty)])
          = combine_archives t c [A]
              ({|''z.o'', ''x.o''|}, w0 @ [(c, [''x.o'' \<mapsto> bx, ''z.o'' \<mapsto> bz])])"
    by (simp only: combine_archives_step [OF assms(3) assms(2)] gb cb fst_conv snd_conv)
  also have "\<dots> = combine_archives t c []
              ({|''y.o'', ''_x.o'', ''z.o'', ''x.o''|},
               w0 @ [(c, [''x.o'' \<mapsto> bx, ''z.o'' \<mapsto> bz, ''_x.o'' \<mapsto> ax, ''y.o'' \<mapsto> ay])])"
    by (simp only: combine_archives_step [OF assms(3) assms(1)] ga cba fst_conv snd_conv)
  finally have 2: "combine_archives t c [B, A] ({||}, w0 @ [(c, Map.empty)])
           = (Inr {|''x.o'', ''z.o'', ''_x.o'', ''y.o''|},
              w0 @ [(c, [''x.o'' \<mapsto> bx, ''z.o'' \<mapsto> bz, ''_x.o'' \<mapsto> ax, ''y.o'' \<mapsto> ay])])"
    by auto
  have 3: "fcard {|''x.o'', ''y.o'', ''_x.o'', ''z.o''|} = 4"
    by (simp add: fcard_finsert_if)
  from 1 2 3 show ?thesis by blast
qed

theorem combine_archives_collision_witness:
  "combine_archives demo_tools 1 [''/d/libA.a'', ''/d/libB.a''] ({||}, [(1, Map.empty)])
     = (Inr {|''x.o'', ''y.o'', ''_x.o'', ''z.o''|},
        [(1, [''x.o'' \<mapsto> ''Ax'', ''y.o'' \<mapsto> ''Ay'', ''_x.o'' \<mapsto> ''Bx'', ''z.o'' \<mapsto> ''Bz''])])
   \<and> combine_archives demo_tools 1 [''/d/libB.a'', ''/d/libA.a''] ({||}, [(1, Map.empty)])
     = (Inr {|''x.o'', ''z.o'', ''_x.o'', ''y.o''|},
        [(1, [''x.o'' \<mapsto> ''Bx'', ''z.o'' \<mapsto> ''Bz'', ''_x.o'' \<mapsto> ''Ax'', ''y.o'' \<mapsto> ''Ay''])])"
proof -
  have a: "ar_x demo_tools ''/d/libA.a'' = Inr [(''x.o'', ''Ax''), (''y.o'', ''Ay'')]"
    and b: "ar_x demo_tools ''/d/libB.a'' = Inr [(''x.o'', ''Bx''), (''z.o'', ''Bz'')]"
    by (simp_all add: demo_tools_def demo_ar_x_def)
  have c: "(1::nat) \<notin> fst ` set ([]::tmp_area)" by simp
  from combine_archives_collision [OF a b c] show ?thesis by simp
qed




subsection \<open>C3: the temporary directories\<close>




section \<open>Properties of the orchestrator\<close>

lemma demo_kit: "DEVKITS ''frida-gum'' = Some (''frida-gum-1.0'', [''frida-1.0'', ''gum'', ''gum.h''])"
  by (simp add: DEVKITS_def)

lemma demo_path:
  "compute_umbrella_header_path ''/frida'' ''linux-x86_64'' [''frida-1.0'', ''gum'', ''gum.h'']
     = ''/frida/build/frida-linux-x86_64/include/frida-1.0/gum/gum.h''"
  by (simp add: compute_umbrella_header_path_def path_join_def startswith_def endswith_def)

lemma demo_header:
  "generate_header ''frida-gum-1.0'' demo_tree
       [''/frida/build/frida-linux-x86_64/include/frida-1.0/gum/gum.h'']
     = Inr ''#include <glib.h>\<newline>void gum_init (void);\<newline>''"
  by (simp add: generate_header_def config_def devkit_header_def demo_tree_def include_match_def
      strip_def is_space_def startswith_def endswith_def)

lemma demo_exists:
  "file_exists (demo_steps t) ''/frida/build/frida-linux-x86_64/include/frida-1.0/gum/gum.h''"
  by (simp add: demo_steps_def demo_tree_def)

lemma demo_header_step:
  "header_step (demo_steps t) ''frida-gum-1.0''
       ''/frida/build/frida-linux-x86_64/include/frida-1.0/gum/gum.h''
     = Inr ''#include <glib.h>\<newline>void gum_init (void);\<newline>''"
  by (simp add: demo_steps_def demo_header)

lemma demo_library_step:
  "library_step (demo_steps demo_tools) ''frida-gum-1.0''
     = Inr (''!<arch>'', [''-lm'', ''-Wl,--gc-sections''])"
  "library_step (demo_steps demo_tools_broken) ''frida-gum-1.0''
     = Inl (CalledProcessError ''ar x'')"
  by (simp_all add: demo_steps_def demo_library_ok demo_library_broken)

lemma demo_example_step:
  "example_step (demo_steps t) filename package kit extra_ldflags = Inr (''/* '' @ filename @ '' */'')"
  by (simp add: demo_steps_def)

lemma demo_can_write: "can_write (demo_steps t) filename"
  by (simp add: demo_steps_def)

lemmas demo_run = generate_devkit_def demo_kit demo_path Let_def demo_exists demo_header_step
  demo_library_step demo_example_step demo_can_write write_artifact_def
  compute_library_filename_def

subsection \<open>C1: which artifacts a failing run leaves\<close>

text \<open>
  The header is written before the library is generated: when the library step fails,
  the run aborts and the header file is in the output directory.
\<close>

theorem generate_devkit_header_left_behind:
  "fst (generate_devkit (demo_steps demo_tools_broken) ''/frida'' ''frida-gum'' ''linux-x86_64''
          Map.empty) = Inl (CalledProcessError ''ar x'')
   \<and> snd (generate_devkit (demo_steps demo_tools_broken) ''/frida'' ''frida-gum'' ''linux-x86_64''
          Map.empty) ''frida-gum.h''
       = Some ''#include <glib.h>\<newline>void gum_init (void);\<newline>''"
  by (simp add: demo_run)

text \<open>
  Claim C1, amended: a failing generation step aborts the run, and neither its artifact
  nor that of a later step is written; the artifacts of the steps before it stay written.
  Nothing is written when the umbrella header is missing or the header step fails; the
  header file alone when the library step fails; the header and the library when the
  example step fails. The run returns, with all three files written, only when all three
  steps succeed. (Stated for an output directory that can be written.)
\<close>

theorem generate_devkit_artifacts:
  assumes "DEVKITS kit = Some (package, umbrella_header)"
    and "\<And>filename. can_write s filename"
    and "generate_devkit s frida_root kit host output_dir = (res, out')"
    and "p = compute_umbrella_header_path frida_root host umbrella_header"
  shows "(\<not> file_exists s p \<or> (\<exists>e. header_step s package p = Inl e)
            \<longrightarrow> (\<exists>e. res = Inl e) \<and> out' = output_dir)
       \<and> (\<forall>h e. file_exists s p \<and> header_step s package p = Inr h \<and> library_step s package = Inl e
            \<longrightarrow> res = Inl e \<and> out' = output_dir(kit @ ''.h'' \<mapsto> h))
       \<and> (\<forall>h l flags e. file_exists s p \<and> header_step s package p = Inr h
              \<and> library_step s package = Inr (l, flags)
              \<and> example_step s (kit @ ''-example.c'') package kit flags = Inl e
            \<longrightarrow> res = Inl e \<and> out' = output_dir(kit @ ''.h'' \<mapsto> h, ''lib'' @ kit @ ''.a'' \<mapsto> l))
       \<and> (\<forall>names. res = Inr names
            \<longrightarrow> (\<exists>h l flags x. file_exists s p \<and> header_step s package p = Inr h
                  \<and> library_step s package = Inr (l, flags)
                  \<and> example_step s (kit @ ''-example.c'') package kit flags = Inr x
                  \<and> names = [kit @ ''.h'', ''lib'' @ kit @ ''.a'', kit @ ''-example.c'']
                  \<and> out' = output_dir(kit @ ''.h'' \<mapsto> h, ''lib'' @ kit @ ''.a'' \<mapsto> l,
                                       kit @ ''-example.c'' \<mapsto> x)))"
  using assms
  by (auto simp: generate_devkit_def write_artifact_def compute_library_filename_def Let_def
      split: sum.splits prod.splits if_splits)

theorem generate_devkit_artifacts_witness:
  "generate_devkit (demo_steps demo_tools_broken) ''/frida'' ''frida-gum'' ''linux-x86_64'' Map.empty
     = (Inl (CalledProcessError ''ar x''),
        [''frida-gum.h'' \<mapsto> ''#include <glib.h>\<newline>void gum_init (void);\<newline>''])
   \<and> (\<exists>h l flags x.
         generate_devkit (demo_steps demo_tools) ''/frida'' ''frida-gum'' ''linux-x86_64'' Map.empty
           = (Inr [''frida-gum.h'', ''libfrida-gum.a'', ''frida-gum-example.c''],
              [''frida-gum.h'' \<mapsto> h, ''libfrida-gum.a'' \<mapsto> l, ''frida-gum-example.c'' \<mapsto> x]))"
proof -
  note bad = generate_devkit_artifacts
      [OF demo_kit demo_can_write prod.collapse [symmetric] demo_path [symmetric],
       of demo_tools_broken Map.empty]
  from bad demo_exists [of demo_tools_broken] demo_header_step [of demo_tools_broken]
    demo_library_step(2)
  have 1: "generate_devkit (demo_steps demo_tools_broken) ''/frida'' ''frida-gum'' ''linux-x86_64'' Map.empty
     = (Inl (CalledProcessError ''ar x''),
        [''frida-gum.h'' \<mapsto> ''#include <glib.h>\<newline>void gum_init (void);\<newline>''])"
    by (simp add: prod_eq_iff)
  have ok: "fst (generate_devkit (demo_steps demo_tools) ''/frida'' ''frida-gum'' ''linux-x86_64''
              Map.empty) = Inr [''frida-gum.h'', ''libfrida-gum.a'', ''frida-gum-example.c'']"
    by (simp add: demo_run)
  note good = generate_devkit_artifacts
      [OF demo_kit demo_can_write prod.collapse [symmetric] demo_path [symmetric],
       of demo_tools Map.empty]
  from good ok
  have 2: "\<exists>h l flags x.
         generate_devkit (demo_steps demo_tools) ''/frida'' ''frida-gum'' ''linux-x86_64'' Map.empty
           = (Inr [''frida-gum.h'', ''libfrida-gum.a'', ''frida-gum-example.c''],
              [''frida-gum.h'' \<mapsto> h, ''libfrida-gum.a'' \<mapsto> l, ''frida-gum-example.c'' \<mapsto> x])"
    by (auto simp: prod_eq_iff)
  from 1 2 show ?thesis by blast
qed

end
